theory Spec2Isabelle
  imports Main "HOL-Library.Word" "HOL-Library.Char_ord" "HOL-Library.List_Lexorder"
    "HOL-Library.Sublist" "HOL-Library.Multiset"
begin

unbundle bit_operations_syntax

section \<open>The file system the program runs on\<close>

text \<open>
  The three programs (\<^verbatim>\<open>main.go\<close>, \<^verbatim>\<open>enviorments2remote.go\<close> and the older
  sequential variant) only touch the world through the Go standard library:
  \<^verbatim>\<open>os.Stat\<close>, \<^verbatim>\<open>os.MkdirAll\<close>, \<^verbatim>\<open>os.Open\<close>, \<^verbatim>\<open>os.Create\<close>, \<^verbatim>\<open>io.Copy\<close>,
  \<^verbatim>\<open>filepath.Walk\<close>, \<^verbatim>\<open>filepath.Rel\<close>, \<^verbatim>\<open>filepath.Join\<close>, \<^verbatim>\<open>filepath.Base\<close>.
  Their effect is modelled on an explicit file system state.

  \<^item> A path is the list of its components, already in the canonical form that
    \<^verbatim>\<open>filepath.Clean\<close> produces (absolute, no \<^verbatim>\<open>.\<close> or \<^verbatim>\<open>..\<close> component).
  \<^item> A node is a regular file (permission bits, content) or a directory (permission
    bits). Symbolic links and special files are not modelled.
  \<^item> The state is one table for the whole machine: source and destinations live in
    the same table, so a copy whose destination lies inside its source is a
    behaviour of the model, as it is of the program.
  \<^item> Failures come from the state: a missing entry, a file where a directory is
    needed, a directory where a file is needed, the owner's read and write
    permission bits, and a per-file size limit at which \<^verbatim>\<open>io.Copy\<close> stops with a
    short write. Search permission on directories is not modelled.
\<close>

type_synonym path = "string list"
type_synonym bytes = string
type_synonym FileMode = "32 word"

datatype node = File FileMode bytes | Dir FileMode

datatype errno = ENOENT | ENOTDIR | EISDIR | EEXIST | EACCES | EFBIG | EBADF | ENILINFO

text \<open>A Go \<^verbatim>\<open>error\<close> value: \<open>None\<close> is \<^verbatim>\<open>nil\<close>.\<close>

type_synonym error = "errno option"

record fsys =
  entries :: "(path \<times> node) list"
  umask :: FileMode
  fsize_limit :: nat

definition node_at :: "fsys \<Rightarrow> path \<Rightarrow> node option" where
  "node_at fs p = map_of (entries fs) p"

fun store :: "path \<Rightarrow> node \<Rightarrow> (path \<times> node) list \<Rightarrow> (path \<times> node) list" where
  "store p n [] = [(p, n)]"
| "store p n ((q, m) # es) = (if q = p then (p, n) # es else (q, m) # store p n es)"

definition put :: "path \<Rightarrow> node \<Rightarrow> fsys \<Rightarrow> fsys" where
  "put p n fs = fs\<lparr>entries := store p n (entries fs)\<rparr>"

text \<open>Owner read bit \<^verbatim>\<open>0400\<close> and owner write bit \<^verbatim>\<open>0200\<close>.\<close>

definition readable :: "FileMode \<Rightarrow> bool" where
  "readable m \<longleftrightarrow> m AND 256 \<noteq> 0"

definition writable :: "FileMode \<Rightarrow> bool" where
  "writable m \<longleftrightarrow> m AND 128 \<noteq> 0"

text \<open>\<^verbatim>\<open>os.FileInfo\<close>, as far as the program reads it: \<^verbatim>\<open>IsDir()\<close> and \<^verbatim>\<open>Mode()\<close>.\<close>

datatype FileInfo = FileInfo (IsDir: bool) (Mode: FileMode)

definition os_Lstat :: "path \<Rightarrow> fsys \<Rightarrow> errno + FileInfo" where
  "os_Lstat p fs =
     (case node_at fs p of
        None \<Rightarrow> Inl ENOENT
      | Some (Dir m) \<Rightarrow> Inr (FileInfo True m)
      | Some (File m b) \<Rightarrow> Inr (FileInfo False m))"

text \<open>Without symbolic links \<^verbatim>\<open>os.Stat\<close> and \<^verbatim>\<open>os.Lstat\<close> agree.\<close>

definition os_Stat :: "path \<Rightarrow> fsys \<Rightarrow> errno + FileInfo" where
  "os_Stat p fs = os_Lstat p fs"

definition child_names :: "path \<Rightarrow> (path \<times> node) list \<Rightarrow> string list" where
  "child_names p es = map (\<lambda>e. last (fst e)) (filter (\<lambda>e. fst e \<noteq> [] \<and> butlast (fst e) = p) es)"

text \<open>\<^verbatim>\<open>readDirNames\<close> of \<^verbatim>\<open>path/filepath\<close>: the entries of a directory, sorted.\<close>

definition readDirNames :: "path \<Rightarrow> fsys \<Rightarrow> errno + string list" where
  "readDirNames p fs =
     (case node_at fs p of
        None \<Rightarrow> Inl ENOENT
      | Some (File m b) \<Rightarrow> Inl ENOTDIR
      | Some (Dir m) \<Rightarrow>
          if readable m then Inr (sort (remdups (child_names p (entries fs))))
          else Inl EACCES)"

text \<open>
  \<^verbatim>\<open>os.Mkdir(path, perm)\<close>: the parent must be a writable directory and the name must
  be free; the new directory gets \<^verbatim>\<open>perm &^ umask\<close>.
\<close>

definition os_Mkdir :: "path \<Rightarrow> FileMode \<Rightarrow> fsys \<Rightarrow> error \<times> fsys" where
  "os_Mkdir p perm fs =
     (case node_at fs p of
        Some n \<Rightarrow> (Some EEXIST, fs)
      | None \<Rightarrow>
          if p = [] then (Some ENOENT, fs)
          else (case node_at fs (butlast p) of
                  None \<Rightarrow> (Some ENOENT, fs)
                | Some (File m b) \<Rightarrow> (Some ENOTDIR, fs)
                | Some (Dir m) \<Rightarrow>
                    if writable m then (None, put p (Dir (perm AND NOT (umask fs))) fs)
                    else (Some EACCES, fs)))"

text \<open>
  \<^verbatim>\<open>os.MkdirAll(path, perm)\<close>: succeed at once on an existing directory, fail with
  \<^verbatim>\<open>ENOTDIR\<close> on an existing file; otherwise make the parent first, then the
  directory itself, and accept a failed \<^verbatim>\<open>Mkdir\<close> when the directory is there
  after all.
\<close>

fun os_MkdirAll :: "path \<Rightarrow> FileMode \<Rightarrow> fsys \<Rightarrow> error \<times> fsys" where
  "os_MkdirAll p perm fs =
     (case os_Stat p fs of
        Inr dir \<Rightarrow> if IsDir dir then (None, fs) else (Some ENOTDIR, fs)
      | Inl e \<Rightarrow>
          (case (if p = [] then (None, fs) else os_MkdirAll (butlast p) perm fs) of
             (Some e1, fs1) \<Rightarrow> (Some e1, fs1)
           | (None, fs1) \<Rightarrow>
               (case os_Mkdir p perm fs1 of
                  (None, fs2) \<Rightarrow> (None, fs2)
                | (Some e2, fs2) \<Rightarrow>
                    (case os_Lstat p fs2 of
                       Inr dir \<Rightarrow> if IsDir dir then (None, fs2) else (Some e2, fs2)
                     | Inl e3 \<Rightarrow> (Some e2, fs2)))))"

declare os_MkdirAll.simps [simp del]

text \<open>
  An open file is identified by its path: nothing in the program removes or renames
  an entry, so the path names the same file for as long as the handle lives.
  \<^verbatim>\<open>os.Open\<close> opens for reading.
\<close>

definition os_Open :: "path \<Rightarrow> fsys \<Rightarrow> errno + path" where
  "os_Open p fs =
     (case node_at fs p of
        None \<Rightarrow> Inl ENOENT
      | Some (File m b) \<Rightarrow> if readable m then Inr p else Inl EACCES
      | Some (Dir m) \<Rightarrow> if readable m then Inr p else Inl EACCES)"

text \<open>
  \<^verbatim>\<open>os.Create\<close>: \<^verbatim>\<open>O_RDWR|O_CREATE|O_TRUNC\<close> with mode \<^verbatim>\<open>0666\<close>. An existing file is
  truncated and keeps its mode; a new file gets \<^verbatim>\<open>0666 &^ umask\<close>.
\<close>

definition os_Create :: "path \<Rightarrow> fsys \<Rightarrow> errno + (path \<times> fsys)" where
  "os_Create p fs =
     (case node_at fs p of
        Some (Dir m) \<Rightarrow> Inl EISDIR
      | Some (File m b) \<Rightarrow>
          if writable m then Inr (p, put p (File m []) fs) else Inl EACCES
      | None \<Rightarrow>
          if p = [] then Inl ENOENT
          else (case node_at fs (butlast p) of
                  None \<Rightarrow> Inl ENOENT
                | Some (File m b) \<Rightarrow> Inl ENOTDIR
                | Some (Dir m) \<Rightarrow>
                    if writable m then Inr (p, put p (File (438 AND NOT (umask fs)) []) fs)
                    else Inl EACCES))"

text \<open>
  \<^verbatim>\<open>io.Copy(dst, src)\<close>: reads the source file as it is now and writes it to the
  destination file. When the content is longer than the file size limit the write
  stops there: the destination keeps the bytes written so far and the copy reports
  \<^verbatim>\<open>EFBIG\<close>. Reading a directory fails with \<^verbatim>\<open>EISDIR\<close>.
\<close>

definition io_Copy :: "path \<Rightarrow> path \<Rightarrow> fsys \<Rightarrow> error \<times> fsys" where
  "io_Copy dst src fs =
     (case node_at fs src of
        None \<Rightarrow> (Some EBADF, fs)
      | Some (Dir m) \<Rightarrow> (Some EISDIR, fs)
      | Some (File m b) \<Rightarrow>
          (case node_at fs dst of
             Some (File md bd) \<Rightarrow>
               if length b \<le> fsize_limit fs then (None, put dst (File md b) fs)
               else (Some EFBIG, put dst (File md (take (fsize_limit fs) b)) fs)
           | Some (Dir md) \<Rightarrow> (Some EBADF, fs)
           | None \<Rightarrow> (Some EBADF, fs)))"

subsection \<open>Paths\<close>

fun strip_common :: "path \<Rightarrow> path \<Rightarrow> path \<times> path" where
  "strip_common (a # as) (b # bs) = (if a = b then strip_common as bs else (a # as, b # bs))"
| "strip_common as bs = (as, bs)"

text \<open>
  \<^verbatim>\<open>filepath.Rel(basepath, targpath)\<close>: drop the common prefix and climb out of what is
  left of the base. On absolute paths it never fails.
\<close>

definition filepath_Rel :: "path \<Rightarrow> path \<Rightarrow> errno + path" where
  "filepath_Rel base targ =
     (case strip_common base targ of (b, t) \<Rightarrow> Inr (replicate (length b) ''..'' @ t))"

text \<open>\<^verbatim>\<open>filepath.Join\<close>, on operands without \<^verbatim>\<open>..\<close>.\<close>

definition filepath_Join :: "path \<Rightarrow> path \<Rightarrow> path" where
  "filepath_Join a b = a @ b"

text \<open>\<^verbatim>\<open>filepath.Base\<close>: the last component; \<^verbatim>\<open>/\<close> for the root.\<close>

definition filepath_Base :: "path \<Rightarrow> string" where
  "filepath_Base p = (if p = [] then ''/'' else last p)"

subsection \<open>filepath.Walk\<close>

text \<open>
  \<^verbatim>\<open>filepath.Walk\<close> and its recursive worker \<^verbatim>\<open>walk\<close>. A directory's names are read
  before the callback is called on it, and each child is looked up when its turn
  comes, so the walk sees what earlier callbacks wrote. The recursion depth is not
  bounded by the initial tree when the callback writes into the tree being walked;
  the first argument is the depth the walk may still descend, and \<open>None\<close> means this
  depth was not enough. The callback of this program returns no \<^verbatim>\<open>SkipDir\<close> or
  \<^verbatim>\<open>SkipAll\<close>, so these two sentinels are left out.
\<close>

type_synonym WalkFunc = "path \<Rightarrow> FileInfo option \<Rightarrow> error \<Rightarrow> fsys \<Rightarrow> error \<times> fsys"

fun walk :: "nat \<Rightarrow> WalkFunc \<Rightarrow> path \<Rightarrow> FileInfo \<Rightarrow> fsys \<Rightarrow> (error \<times> fsys) option"
  and walk_names :: "nat \<Rightarrow> WalkFunc \<Rightarrow> path \<Rightarrow> string list \<Rightarrow> fsys \<Rightarrow> (error \<times> fsys) option"
where
  "walk 0 walkFn p info fs = None"
| "walk (Suc k) walkFn p info fs =
     (if \<not> IsDir info then Some (walkFn p (Some info) None fs)
      else (case readDirNames p fs of
              Inl err \<Rightarrow> Some (walkFn p (Some info) (Some err) fs)
            | Inr names \<Rightarrow>
                (case walkFn p (Some info) None fs of
                   (Some err1, fs1) \<Rightarrow> Some (Some err1, fs1)
                 | (None, fs1) \<Rightarrow> walk_names k walkFn p names fs1)))"
| "walk_names k walkFn p [] fs = Some (None, fs)"
| "walk_names k walkFn p (name # names) fs =
     (let filename = filepath_Join p [name] in
      case os_Lstat filename fs of
        Inl err \<Rightarrow>
          (case walkFn filename None (Some err) fs of
             (Some err1, fs1) \<Rightarrow> Some (Some err1, fs1)
           | (None, fs1) \<Rightarrow> walk_names k walkFn p names fs1)
      | Inr fileInfo \<Rightarrow>
          (case walk k walkFn filename fileInfo fs of
             None \<Rightarrow> None
           | Some (Some err1, fs1) \<Rightarrow> Some (Some err1, fs1)
           | Some (None, fs1) \<Rightarrow> walk_names k walkFn p names fs1))"

definition filepath_Walk :: "nat \<Rightarrow> path \<Rightarrow> WalkFunc \<Rightarrow> fsys \<Rightarrow> (error \<times> fsys) option" where
  "filepath_Walk k root walkFn fs =
     (case os_Lstat root fs of
        Inl err \<Rightarrow> Some (walkFn root None (Some err) fs)
      | Inr info \<Rightarrow> walk k walkFn root info fs)"

section \<open>copyDirectory\<close>

text \<open>
  The callback that \<^verbatim>\<open>copyDirectory\<close> hands to \<^verbatim>\<open>filepath.Walk\<close>, the same in the
  three files. The deferred \<^verbatim>\<open>Close\<close> calls have no effect on the table.
\<close>

definition copyDirectory_walkFn :: "path \<Rightarrow> path \<Rightarrow> WalkFunc" where
  "copyDirectory_walkFn src dest p info err fs =
     (case err of
        Some e \<Rightarrow> (Some e, fs)
      | None \<Rightarrow>
          (case filepath_Rel src p of
             Inl e \<Rightarrow> (Some e, fs)
           | Inr relPath \<Rightarrow>
               (let destPath = filepath_Join dest relPath in
                case info of
                  None \<Rightarrow> (Some ENILINFO, fs)
                | Some i \<Rightarrow>
                    if IsDir i then os_MkdirAll destPath (Mode i) fs
                    else (case os_Open p fs of
                            Inl e \<Rightarrow> (Some e, fs)
                          | Inr srcFile \<Rightarrow>
                              (case os_Create destPath fs of
                                 Inl e \<Rightarrow> (Some e, fs)
                               | Inr (destFile, fs1) \<Rightarrow> io_Copy destFile srcFile fs1)))))"

text \<open>
  \<^verbatim>\<open>copyDirectory(src, dest string) error\<close> of the sequential variant: the result of
  the walk. The concurrent variants run the same walk and print the error instead
  of returning it (see \<open>copyDirectory_go\<close> below).
\<close>

definition copyDirectory :: "nat \<Rightarrow> path \<Rightarrow> path \<Rightarrow> fsys \<Rightarrow> (error \<times> fsys) option" where
  "copyDirectory k src dest fs = filepath_Walk k src (copyDirectory_walkFn src dest) fs"

section \<open>The orchestrator\<close>

text \<open>What the program prints, one constructor per \<^verbatim>\<open>fmt.Print\<close> call that matters.\<close>

datatype msg =
    NotExist
  | FailedSolutions errno
  | FailedSolution errno
  | HangTight
  | FailedEnvDir string errno
  | StillCooking string
  | ErrorCopying path path errno
  | FailedCopy path errno
  | Completed

text \<open>
  The two lines read from standard input, and the home directory that
  \<^verbatim>\<open>os.UserHomeDir\<close> returns. A name read by \<^verbatim>\<open>Scanln\<close> is one path component; the
  empty name joins to nothing.
\<close>

record input =
  directoryName :: path
  solutionName :: string
  homeDir :: path

definition getDesktopSolutionsPath :: "path \<Rightarrow> path" where
  "getDesktopSolutionsPath home = filepath_Join home [''Desktop'', ''Solutions'']"

definition solutionPath_of :: "input \<Rightarrow> path" where
  "solutionPath_of inp =
     filepath_Join (getDesktopSolutionsPath (homeDir inp))
       (if solutionName inp = [] then [] else [solutionName inp])"

definition environments :: "string list" where
  "environments = [''SANDBOX_'', ''DEV_'', ''STAGE_'', ''PREPROD_'', ''PROD_'']"

definition envDirName_of :: "input \<Rightarrow> string \<Rightarrow> string" where
  "envDirName_of inp env = env @ filepath_Base (directoryName inp)"

definition envDirPath_of :: "input \<Rightarrow> string \<Rightarrow> path" where
  "envDirPath_of inp env = filepath_Join (solutionPath_of inp) [envDirName_of inp env]"

text \<open>
  Where the main goroutine stands: before the loop, in the loop with the
  environments still to do, at \<^verbatim>\<open>wg.Wait()\<close>, returned, or the process has panicked.
\<close>

datatype pc = Start | Loop "string list" | Wait | Exit | Panicked

text \<open>
  A goroutine started by \<^verbatim>\<open>go copyDirectory(src, dest, &wg)\<close>, with its arguments and
  where it stands: started, with \<^verbatim>\<open>wg.Done\<close> deferred and \<^verbatim>\<open>filepath.Walk\<close> not yet
  called; the walk has returned and \<^verbatim>\<open>err\<close> is assigned; past the \<^verbatim>\<open>if\<close> that prints
  the error, with the deferred call due; returned.
\<close>

datatype goroutine =
    Pending path path
  | Walked path path error
  | Reported path path error
  | Returned path path error

fun returned :: "goroutine \<Rightarrow> bool" where
  "returned (Returned src dest err) = True"
| "returned g = False"

record state =
  disk :: fsys
  out :: "msg list"
  wg :: int
  pc :: pc
  goroutines :: "goroutine list"

definition init :: "fsys \<Rightarrow> state" where
  "init f = \<lparr>disk = f, out = [], wg = 0, pc = Start, goroutines = []\<rparr>"

text \<open>
  Lines 59 to 96 of \<^verbatim>\<open>main.go\<close>: the presence check of the source, the two
  directories of the workspace, the first message.
\<close>

definition main_setup :: "input \<Rightarrow> state \<Rightarrow> state" where
  "main_setup inp s =
     (if os_Stat (directoryName inp) (disk s) = Inl ENOENT
      then s\<lparr>out := out s @ [NotExist], pc := Exit\<rparr>
      else
        (let solutionsPath = getDesktopSolutionsPath (homeDir inp);
             (err1, fs1) = (if os_Stat solutionsPath (disk s) = Inl ENOENT
                            then os_MkdirAll solutionsPath 493 (disk s)
                            else (None, disk s))
         in case err1 of
              Some e \<Rightarrow> s\<lparr>disk := fs1, out := out s @ [FailedSolutions e], pc := Exit\<rparr>
            | None \<Rightarrow>
                (case os_MkdirAll (solutionPath_of inp) 493 fs1 of
                   (Some e, fs2) \<Rightarrow> s\<lparr>disk := fs2, out := out s @ [FailedSolution e], pc := Exit\<rparr>
                 | (None, fs2) \<Rightarrow>
                     s\<lparr>disk := fs2, out := out s @ [HangTight], pc := Loop environments\<rparr>)))"

text \<open>
  One iteration of the loop of \<^verbatim>\<open>main.go\<close> (lines 102 to 119): make the environment
  directory; on failure print and \<^verbatim>\<open>continue\<close>; otherwise print, \<^verbatim>\<open>wg.Add(1)\<close> and
  start the goroutine. The \<^verbatim>\<open>go\<close> statement only records the goroutine; nothing of
  its body has run when the iteration ends.
\<close>

definition main_iteration :: "input \<Rightarrow> string \<Rightarrow> string list \<Rightarrow> state \<Rightarrow> state" where
  "main_iteration inp env envs s =
     (case os_MkdirAll (envDirPath_of inp env) 493 (disk s) of
        (Some e, fs1) \<Rightarrow>
          s\<lparr>disk := fs1, out := out s @ [FailedEnvDir (envDirName_of inp env) e], pc := Loop envs\<rparr>
      | (None, fs1) \<Rightarrow>
          s\<lparr>disk := fs1, out := out s @ [StillCooking (envDirName_of inp env)],
            wg := wg s + 1,
            goroutines := goroutines s @ [Pending (directoryName inp) (envDirPath_of inp env)],
            pc := Loop envs\<rparr>)"

text \<open>
  \<^verbatim>\<open>wg.Done()\<close>: the counter goes down by one; a negative counter panics and takes
  the process down.
\<close>

definition wg_Done :: "state \<Rightarrow> state" where
  "wg_Done s = (if wg s - 1 < 0 then s\<lparr>wg := wg s - 1, pc := Panicked\<rparr> else s\<lparr>wg := wg s - 1\<rparr>)"

text \<open>
  \<^verbatim>\<open>copyDirectory(src, dest, wg)\<close> of \<^verbatim>\<open>main.go\<close> and \<^verbatim>\<open>enviorments2remote.go\<close>, one
  statement at a time: the walk, which writes the disk and assigns \<^verbatim>\<open>err\<close>; the \<^verbatim>\<open>if\<close>
  that prints the error when there is one; the deferred \<^verbatim>\<open>wg.Done()\<close> on the way out.
  The result is where the goroutine stands afterwards and the new state; \<open>None\<close>
  when it cannot move: its walk does not come back within the depth \<open>k\<close>, or it has
  returned.
\<close>

definition copyDirectory_go :: "nat \<Rightarrow> goroutine \<Rightarrow> state \<Rightarrow> (goroutine \<times> state) option" where
  "copyDirectory_go k g s =
     (case g of
        Pending src dest \<Rightarrow>
          (case copyDirectory k src dest (disk s) of
             None \<Rightarrow> None
           | Some (err, fs1) \<Rightarrow> Some (Walked src dest err, s\<lparr>disk := fs1\<rparr>))
      | Walked src dest err \<Rightarrow>
          Some (Reported src dest err,
                (case err of
                   Some e \<Rightarrow> s\<lparr>out := out s @ [ErrorCopying src dest e]\<rparr>
                 | None \<Rightarrow> s))
      | Reported src dest err \<Rightarrow> Some (Returned src dest err, wg_Done s)
      | Returned src dest err \<Rightarrow> None)"

text \<open>
  The process is the main goroutine and the goroutines it started. A step is taken
  by one of them, so the statements of different goroutines interleave in any
  order; the walk of one goroutine is a single step. \<open>None\<close> means that this one
  cannot move now: the main goroutine blocked in \<^verbatim>\<open>wg.Wait()\<close> or returned, a
  goroutine that does not exist, has returned or whose walk does not come back, or
  a process that has ended.
\<close>

datatype actor = Main | Go nat

definition step_main :: "input \<Rightarrow> state \<Rightarrow> state option" where
  "step_main inp s =
     (case pc s of
        Start \<Rightarrow> Some (main_setup inp s)
      | Loop [] \<Rightarrow> Some (s\<lparr>pc := Wait\<rparr>)
      | Loop (env # envs) \<Rightarrow> Some (main_iteration inp env envs s)
      | Wait \<Rightarrow> if wg s = 0 then Some (s\<lparr>out := out s @ [Completed], pc := Exit\<rparr>) else None
      | Exit \<Rightarrow> None
      | Panicked \<Rightarrow> None)"

definition step_go :: "nat \<Rightarrow> nat \<Rightarrow> state \<Rightarrow> state option" where
  "step_go k i s =
     (if pc s = Exit \<or> pc s = Panicked \<or> pc s = Start then None
      else if i < length (goroutines s) then
        (case copyDirectory_go k (goroutines s ! i) s of
           None \<Rightarrow> None
         | Some (g, s1) \<Rightarrow> Some (s1\<lparr>goroutines := (goroutines s1)[i := g]\<rparr>))
      else None)"

fun step :: "nat \<Rightarrow> input \<Rightarrow> actor \<Rightarrow> state \<Rightarrow> state option" where
  "step k inp Main s = step_main inp s"
| "step k inp (Go i) s = step_go k i s"

text \<open>A run under a schedule: the list of who moves next.\<close>

fun run :: "nat \<Rightarrow> input \<Rightarrow> actor list \<Rightarrow> state \<Rightarrow> state option" where
  "run k inp [] s = Some s"
| "run k inp (a # as) s = (case step k inp a s of None \<Rightarrow> None | Some s1 \<Rightarrow> run k inp as s1)"

text \<open>The goroutines that have been started and have not returned.\<close>

definition outstanding :: "state \<Rightarrow> nat" where
  "outstanding s = length (filter (\<lambda>g. \<not> returned g) (goroutines s))"

subsection \<open>The sequential variant\<close>

text \<open>
  The loop of the older variant (lines 93 to 110): the copy is an ordinary call
  inside the iteration, and its error is printed by the loop.
\<close>

fun main_seq_loop :: "nat \<Rightarrow> input \<Rightarrow> string list \<Rightarrow> fsys \<times> msg list \<Rightarrow> (fsys \<times> msg list) option" where
  "main_seq_loop k inp [] (f, ms) = Some (f, ms @ [Completed])"
| "main_seq_loop k inp (env # envs) (f, ms) =
     (case os_MkdirAll (envDirPath_of inp env) 493 f of
        (Some e, f1) \<Rightarrow> main_seq_loop k inp envs (f1, ms @ [FailedEnvDir (envDirName_of inp env) e])
      | (None, f1) \<Rightarrow>
          (case copyDirectory k (directoryName inp) (envDirPath_of inp env) f1 of
             None \<Rightarrow> None
           | Some (Some e, f2) \<Rightarrow>
               main_seq_loop k inp envs
                 (f2, ms @ [StillCooking [], FailedCopy (envDirPath_of inp env) e])
           | Some (None, f2) \<Rightarrow> main_seq_loop k inp envs (f2, ms @ [StillCooking []])))"

section \<open>Notions used in the statements\<close>

definition is_dir :: "fsys \<Rightarrow> path \<Rightarrow> bool" where
  "is_dir fs p = (case node_at fs p of Some (Dir m) \<Rightarrow> True | _ \<Rightarrow> False)"

text \<open>
  The invariant of the process: the counter of the wait group is the number of
  goroutines that have not returned, nobody has panicked, no goroutine exists before
  the loop, and none is left when the main goroutine has returned.
\<close>

definition Inv :: "state \<Rightarrow> bool" where
  "Inv s \<longleftrightarrow> wg s = int (outstanding s) \<and> pc s \<noteq> Panicked \<and>
     (pc s = Start \<longrightarrow> goroutines s = []) \<and> (pc s = Exit \<longrightarrow> outstanding s = 0)"

subsection \<open>A small machine to run the program on\<close>

text \<open>
  A home directory \<^verbatim>\<open>/h\<close> and a source directory \<^verbatim>\<open>/s\<close> with one file \<^verbatim>\<open>/s/a\<close>; the
  user answers \<^verbatim>\<open>/s\<close> and \<^verbatim>\<open>x\<close>. In the schedule the first goroutine walks while
  the main goroutine is still in the loop, the statements of the five goroutines
  interleave, and the main goroutine moves last.
\<close>

definition ex_fs :: fsys where
  "ex_fs = \<lparr>entries = [([], Dir 493), ([''h''], Dir 493), ([''s''], Dir 493),
                        ([''s'', ''a''], File 420 ''hi'')],
            umask = 18, fsize_limit = 8\<rparr>"

definition ex_inp :: input where
  "ex_inp = \<lparr>directoryName = [''s''], solutionName = ''x'', homeDir = [''h'']\<rparr>"

definition ex_sched :: "actor list" where
  "ex_sched = [Main, Main, Main, Go 0, Main, Main, Main, Main, Go 1, Go 0, Go 2, Go 1, Go 0,
               Go 1, Go 2, Go 2, Go 3, Go 4, Go 4, Go 3, Go 3, Go 4, Main]"


fun is_copy_error :: "msg \<Rightarrow> bool" where
  "is_copy_error (ErrorCopying src dest e) = True"
| "is_copy_error m = False"

definition Announced :: "state \<Rightarrow> bool" where
  "Announced s \<longleftrightarrow> (pc s = Start \<longrightarrow> out s = []) \<and>
     (pc s = Exit \<and> HangTight \<in> set (out s) \<longrightarrow> out s \<noteq> [] \<and> last (out s) = Completed)"

text \<open>The same machine with a file size limit of one byte: every copy of \<^verbatim>\<open>/s/a\<close> fails.\<close>

definition ex_fs_small :: fsys where
  "ex_fs_small = ex_fs\<lparr>fsize_limit := 1\<rparr>"

text \<open>The same machine with a regular file where the \<^verbatim>\<open>DEV_\<close> directory should go.\<close>

definition ex_fs_blocked :: fsys where
  "ex_fs_blocked = \<lparr>entries = [([], Dir 493), ([''h''], Dir 493), ([''s''], Dir 493),
       ([''s'', ''a''], File 420 ''hi''), ([''h'', ''Desktop''], Dir 493),
       ([''h'', ''Desktop'', ''Solutions''], Dir 493),
       ([''h'', ''Desktop'', ''Solutions'', ''x''], Dir 493),
       ([''h'', ''Desktop'', ''Solutions'', ''x'', ''DEV_s''], File 420 [])],
     umask = 18, fsize_limit = 8\<rparr>"

text \<open>The schedule in which only the main goroutine moves, up to \<^verbatim>\<open>wg.Wait()\<close>.\<close>

definition ex_dispatch :: "actor list" where
  "ex_dispatch = [Main, Main, Main, Main, Main, Main, Main]"

text \<open>
  The same machine with a directory where the copy of \<^verbatim>\<open>/s/a\<close> into the \<^verbatim>\<open>SANDBOX_\<close>
  directory should go: \<^verbatim>\<open>os.Create\<close> fails there and the first copy ends with an error.
\<close>

definition ex_fs_conflict :: fsys where
  "ex_fs_conflict = \<lparr>entries = [([], Dir 493), ([''h''], Dir 493), ([''s''], Dir 493),
       ([''s'', ''a''], File 420 ''hi''), ([''h'', ''Desktop''], Dir 493),
       ([''h'', ''Desktop'', ''Solutions''], Dir 493),
       ([''h'', ''Desktop'', ''Solutions'', ''x''], Dir 493),
       ([''h'', ''Desktop'', ''Solutions'', ''x'', ''SANDBOX_s''], Dir 493),
       ([''h'', ''Desktop'', ''Solutions'', ''x'', ''SANDBOX_s'', ''a''], Dir 493)],
     umask = 18, fsize_limit = 8\<rparr>"










subsection \<open>What a copy should leave behind\<close>

text \<open>Two trees are disjoint when neither root lies in the other tree.\<close>

definition disjoint :: "path \<Rightarrow> path \<Rightarrow> bool" where
  "disjoint a b \<longleftrightarrow> \<not> prefix a b \<and> \<not> prefix b a"

text \<open>
  The table describes a tree below \<open>src\<close>: every entry strictly below \<open>src\<close> has a
  directory as its parent.
\<close>

definition tree_below :: "fsys \<Rightarrow> path \<Rightarrow> bool" where
  "tree_below fs src \<longleftrightarrow>
     (\<forall>e \<in> set (entries fs). strict_prefix src (fst e) \<longrightarrow> is_dir fs (butlast (fst e)))"

text \<open>
  The entry that a finished copy of the source node \<open>n\<close> leaves at a destination
  path that held \<open>old\<close>: a directory that was there stays as it was and a new one
  gets the source's permission bits less the umask; a file gets the source's content,
  with the mode of the file that was there, or \<^verbatim>\<open>0666\<close> less the umask when it is new.
\<close>

definition merge :: "FileMode \<Rightarrow> node \<Rightarrow> node option \<Rightarrow> node option" where
  "merge um n old =
     (case n of
        Dir m \<Rightarrow> (case old of Some (Dir mo) \<Rightarrow> Some (Dir mo) | _ \<Rightarrow> Some (Dir (m AND NOT um)))
      | File m b \<Rightarrow>
          Some (File (case old of Some (File mo bo) \<Rightarrow> mo | _ \<Rightarrow> 438 AND NOT um) b))"

text \<open>
  The table after a finished copy of \<open>src\<close> to \<open>dest\<close>, path by path: below \<open>dest\<close>,
  where the source has an entry at the same relative path, the merged entry;
  everywhere else what was there.
\<close>

definition overlay :: "path \<Rightarrow> path \<Rightarrow> fsys \<Rightarrow> path \<Rightarrow> node option" where
  "overlay src dest fs q =
     (if prefix dest q then
        (case node_at fs (src @ drop (length dest) q) of
           None \<Rightarrow> node_at fs q
         | Some n \<Rightarrow> merge (umask fs) n (node_at fs q))
      else node_at fs q)"

text \<open>
  What a copy that may have failed can have left at a path: what was there, the
  entry of the finished copy, or that entry cut short at the file size limit.
\<close>

definition partial_at :: "path \<Rightarrow> path \<Rightarrow> fsys \<Rightarrow> path \<Rightarrow> node option \<Rightarrow> bool" where
  "partial_at src dest fs q v \<longleftrightarrow>
     v = node_at fs q \<or> v = overlay src dest fs q \<or>
     (\<exists>m b md. prefix dest q \<and> node_at fs (src @ drop (length dest) q) = Some (File m b) \<and>
        overlay src dest fs q = Some (File md b) \<and> v = Some (File md (take (fsize_limit fs) b)))"

text \<open>
  The effect of a walk that was allowed to write the paths in \<open>A\<close>: the parameters
  of the machine and every path outside \<open>A\<close> are as before, every path in \<open>A\<close> is in
  one of the three conditions above, and when the walk reports no error every path
  in \<open>A\<close> holds the entry of the finished copy.
\<close>

definition confined ::
  "path \<Rightarrow> path \<Rightarrow> (path \<Rightarrow> bool) \<Rightarrow> fsys \<Rightarrow> error \<Rightarrow> fsys \<Rightarrow> bool" where
  "confined src dest A fs e fs' \<longleftrightarrow>
     umask fs' = umask fs \<and> fsize_limit fs' = fsize_limit fs \<and>
     (\<forall>q. \<not> A q \<longrightarrow> node_at fs' q = node_at fs q) \<and>
     (\<forall>q. A q \<longrightarrow> partial_at src dest fs q (node_at fs' q)) \<and>
     (e = None \<longrightarrow> (\<forall>q. A q \<longrightarrow> node_at fs' q = overlay src dest fs q))"

text \<open>
  What a call of \<^verbatim>\<open>os.MkdirAll\<close> can do to the table: it adds directories with the
  given bits on the way to the path, changes nothing that was there, and ends with
  the path a directory exactly when it reports no error.
\<close>

definition mk_rel :: "path \<Rightarrow> FileMode \<Rightarrow> fsys \<Rightarrow> error \<Rightarrow> fsys \<Rightarrow> bool" where
  "mk_rel p perm fs e fs' \<longleftrightarrow>
     umask fs' = umask fs \<and> fsize_limit fs' = fsize_limit fs \<and>
     (\<forall>q. node_at fs' q = node_at fs q \<or>
          (node_at fs q = None \<and> prefix q p \<and> q \<noteq> [] \<and> is_dir fs' (butlast q) \<and>
           node_at fs' q = Some (Dir (perm AND NOT (umask fs))))) \<and>
     (\<forall>d. is_dir fs d \<and> prefix d p \<longrightarrow> (\<forall>q. \<not> prefix d q \<longrightarrow> node_at fs' q = node_at fs q)) \<and>
     (e = None \<longrightarrow> is_dir fs' p) \<and>
     (e \<noteq> None \<longrightarrow> \<not> is_dir fs p)"

subsection \<open>Machines for the examples of the copy\<close>

text \<open>
  A source \<^verbatim>\<open>/s\<close> with one file and a destination \<^verbatim>\<open>/d\<close> that already holds a
  directory \<^verbatim>\<open>/d/old\<close>.
\<close>

definition merge_fs :: fsys where
  "merge_fs = \<lparr>entries = [([], Dir 493), ([''s''], Dir 493), ([''s'', ''a''], File 420 ''hi''),
                           ([''d''], Dir 493), ([''d'', ''old''], Dir 493)],
               umask = 18, fsize_limit = 8\<rparr>"

text \<open>
  A source \<^verbatim>\<open>/d/s\<close> that lies inside the destination \<^verbatim>\<open>/d\<close>, with a file \<^verbatim>\<open>f\<close> and a
  directory \<^verbatim>\<open>s\<close> that holds another file \<^verbatim>\<open>f\<close>. The program gets there when the user
  names a directory \<^verbatim>\<open>s\<close> inside the \<^verbatim>\<open>SANDBOX_s\<close> directory of an earlier run.
\<close>

definition inside_fs :: fsys where
  "inside_fs = \<lparr>entries = [([], Dir 493), ([''d''], Dir 493), ([''d'', ''s''], Dir 493),
                            ([''d'', ''s'', ''f''], File 420 ''old''),
                            ([''d'', ''s'', ''s''], Dir 493),
                            ([''d'', ''s'', ''s'', ''f''], File 420 ''new'')],
                umask = 18, fsize_limit = 8\<rparr>"

text \<open>A source directory with mode \<^verbatim>\<open>0700\<close> and a destination made with \<^verbatim>\<open>0755\<close>.\<close>

definition mode_fs :: fsys where
  "mode_fs = \<lparr>entries = [([], Dir 493), ([''s''], Dir 448), ([''s'', ''a''], File 420 ''hi''),
                          ([''s'', ''b''], Dir 448), ([''d''], Dir 493)],
              umask = 18, fsize_limit = 8\<rparr>"

text \<open>
  Three files in the source, and a destination that holds a directory where the
  second file should go.
\<close>

definition conflict_fs :: fsys where
  "conflict_fs = \<lparr>entries = [([], Dir 493), ([''s''], Dir 493), ([''s'', ''a''], File 420 ''hi''),
                              ([''s'', ''b''], File 420 ''yo''), ([''s'', ''c''], File 420 ''x''),
                              ([''d''], Dir 493), ([''d'', ''b''], Dir 493)],
                  umask = 18, fsize_limit = 8\<rparr>"

section \<open>Lemmas about the file system and the walk\<close>

lemma map_of_store: "map_of (store p n es) = (map_of es)(p \<mapsto> n)"
  by (induction es) (auto simp: fun_eq_iff)

lemma node_at_put [simp]: "node_at (put p n fs) q = (if q = p then Some n else node_at fs q)"
  by (simp add: node_at_def put_def map_of_store)

lemma umask_put [simp]: "umask (put p n fs) = umask fs"
  by (simp add: put_def)

lemma fsize_limit_put [simp]: "fsize_limit (put p n fs) = fsize_limit fs"
  by (simp add: put_def)

lemma set_child_names: "set (child_names p es) = {c. map_of es (p @ [c]) \<noteq> None}"
proof -
  have "c \<in> set (child_names p es) \<longleftrightarrow> (p @ [c]) \<in> fst ` set es" for c
    unfolding child_names_def
    apply (auto simp: image_iff)
     apply (metis append_butlast_last_id fst_conv)
    by (metis butlast_snoc fst_conv last_snoc snoc_eq_iff_butlast)
  then show ?thesis
    by (auto simp: map_of_eq_None_iff)
qed

lemma readDirNames_set:
  "readDirNames p fs = Inr names \<Longrightarrow> set names = {c. node_at fs (p @ [c]) \<noteq> None}"
  by (auto simp: readDirNames_def node_at_def set_child_names split: option.splits node.splits if_splits)

lemma readDirNames_sorted:
  "readDirNames p fs = Inr names \<Longrightarrow> sorted names \<and> distinct names"
  by (auto simp: readDirNames_def split: option.splits node.splits if_splits)

text \<open>The listing depends on the table only through lookups.\<close>

lemma readDirNames_cong:
  assumes "node_at fs p = node_at fs' p" "\<And>c. (node_at fs (p @ [c]) = None) = (node_at fs' (p @ [c]) = None)"
  shows "readDirNames p fs = readDirNames p fs'"
proof -
  have "set (child_names p (entries fs)) = set (child_names p (entries fs'))"
    using assms(2) by (auto simp: set_child_names node_at_def)
  then have "sort (remdups (child_names p (entries fs))) = sort (remdups (child_names p (entries fs')))"
    by (intro sorted_distinct_set_unique) auto
  then show ?thesis using assms(1)
    by (simp add: readDirNames_def split: option.splits node.splits)
qed



lemma os_Lstat_simps:
  "node_at fs p = None \<Longrightarrow> os_Lstat p fs = Inl ENOENT"
  "node_at fs p = Some (Dir m) \<Longrightarrow> os_Lstat p fs = Inr (FileInfo True m)"
  "node_at fs p = Some (File m b) \<Longrightarrow> os_Lstat p fs = Inr (FileInfo False m)"
  by (simp_all add: os_Lstat_def)

lemma MkdirAll_dir: "node_at fs p = Some (Dir m) \<Longrightarrow> os_MkdirAll p perm fs = (None, fs)"
  by (subst os_MkdirAll.simps) (simp add: os_Stat_def os_Lstat_def)

lemma MkdirAll_file: "node_at fs p = Some (File m b) \<Longrightarrow> os_MkdirAll p perm fs = (Some ENOTDIR, fs)"
  by (subst os_MkdirAll.simps) (simp add: os_Stat_def os_Lstat_def)

lemma MkdirAll_root: "node_at fs [] = None \<Longrightarrow> os_MkdirAll [] perm fs = (Some ENOENT, fs)"
  by (subst os_MkdirAll.simps) (simp add: os_Stat_def os_Lstat_def os_Mkdir_def)

lemma MkdirAll_missing:
  "node_at fs p = None \<Longrightarrow> p \<noteq> [] \<Longrightarrow>
   os_MkdirAll p perm fs =
     (case os_MkdirAll (butlast p) perm fs of
        (Some e1, fs1) \<Rightarrow> (Some e1, fs1)
      | (None, fs1) \<Rightarrow>
          (case os_Mkdir p perm fs1 of
             (None, fs2) \<Rightarrow> (None, fs2)
           | (Some e2, fs2) \<Rightarrow>
               (case os_Lstat p fs2 of
                  Inr dir \<Rightarrow> if IsDir dir then (None, fs2) else (Some e2, fs2)
                | Inl e3 \<Rightarrow> (Some e2, fs2))))"
  by (subst os_MkdirAll.simps) (simp add: os_Stat_def os_Lstat_def)

lemma MkdirAll_rel: "os_MkdirAll p perm fs = (e, fs') \<Longrightarrow> mk_rel p perm fs e fs'"
proof (induction p arbitrary: e fs' rule: rev_induct)
  case Nil
  then show ?case
    by (cases "node_at fs []")
      (auto simp: MkdirAll_root MkdirAll_dir MkdirAll_file mk_rel_def is_dir_def split: node.splits)
next
  case (snoc c p)
  show ?case
  proof (cases "node_at fs (p @ [c])")
    case (Some n)
    with snoc.prems show ?thesis
      by (cases n) (auto simp: MkdirAll_dir MkdirAll_file mk_rel_def is_dir_def)
  next
    case None
    obtain e1 fs1 where r: "os_MkdirAll p perm fs = (e1, fs1)" by fastforce
    from snoc.IH[OF r] have m1: "mk_rel p perm fs e1 fs1" .
    have np: "node_at fs1 (p @ [c]) = None"
      using m1 None unfolding mk_rel_def by (metis prefix_snoc append_self_conv snoc_eq_iff_butlast prefix_order.antisym prefix_def not_Cons_self2 self_append_conv)
    show ?thesis
    proof (cases e1)
      case (Some a)
      with r None snoc.prems have "e = Some a" "fs' = fs1"
        by (auto simp: MkdirAll_missing)
      with m1 Some None show ?thesis
        unfolding mk_rel_def
        apply (intro conjI)
             apply simp
            apply simp
           apply (metis prefix_snoc)
          apply (metis prefix_snoc is_dir_def option.simps(4))
         apply simp
        apply (simp add: is_dir_def)
        done
    next
      case e1None: None
      with m1 obtain m where pd: "node_at fs1 p = Some (Dir m)"
        by (auto simp: mk_rel_def is_dir_def split: option.splits node.splits)
      show ?thesis
      proof (cases "writable m")
        case True
        have mk: "os_Mkdir (p @ [c]) perm fs1 = (None, put (p @ [c]) (Dir (perm AND NOT (umask fs1))) fs1)"
          using np pd True by (simp add: os_Mkdir_def)
        with r None snoc.prems e1None have e: "e = None" and fs': "fs' = put (p @ [c]) (Dir (perm AND NOT (umask fs1))) fs1"
          by (auto simp: MkdirAll_missing)
        show ?thesis
          using m1 None pd unfolding mk_rel_def e fs'
          apply (intro conjI)
               apply simp
              apply simp
             apply (auto simp: is_dir_def prefix_snoc)[1]
            apply (auto simp: is_dir_def prefix_snoc)[1]
           apply (simp add: is_dir_def)
          apply simp
          done
      next
        case False
        have mk: "os_Mkdir (p @ [c]) perm fs1 = (Some EACCES, fs1)"
          using np pd False by (simp add: os_Mkdir_def)
        with r None snoc.prems e1None np have e: "e = Some EACCES" and fs': "fs' = fs1"
          by (auto simp: MkdirAll_missing os_Lstat_def)
        show ?thesis
          using m1 None pd unfolding mk_rel_def e fs'
          apply (intro conjI)
               apply simp
              apply simp
             apply (metis prefix_snoc)
            apply (metis prefix_snoc is_dir_def option.simps(4))
           apply simp
          apply (simp add: is_dir_def)
          done
      qed
    qed
  qed
qed

lemma strip_common_append: "strip_common src (src @ r) = ([], r)"
  by (induction src) (cases r; simp)+

lemma Rel_prefix: "filepath_Rel src (src @ r) = Inr r"
  by (simp add: filepath_Rel_def strip_common_append)

lemma MkdirAll_leaf:
  assumes "node_at fs p = None" "p \<noteq> []" "node_at fs (butlast p) = Some (Dir mp)"
  shows "os_MkdirAll p perm fs =
           (if writable mp then (None, put p (Dir (perm AND NOT (umask fs))) fs) else (Some EACCES, fs))"
  using assms
  by (simp add: MkdirAll_missing MkdirAll_dir os_Mkdir_def os_Lstat_def)

lemma cb_err: "copyDirectory_walkFn src dest p info (Some e) fs = (Some e, fs)"
  by (simp add: copyDirectory_walkFn_def)

lemma overlay_at: "overlay src dest fs (dest @ r) =
   (case node_at fs (src @ r) of None \<Rightarrow> node_at fs (dest @ r) | Some n \<Rightarrow> merge (umask fs) n (node_at fs (dest @ r)))"
  by (simp add: overlay_def)

lemma cb_dir:
  assumes "node_at fs (src @ r) = Some (Dir m)"
    and "r = [] \<longrightarrow> is_dir fs dest" "r \<noteq> [] \<longrightarrow> is_dir fs (dest @ butlast r)"
    and "copyDirectory_walkFn src dest (src @ r) (Some (FileInfo True m)) None fs = (e, fs')"
  shows "umask fs' = umask fs \<and> fsize_limit fs' = fsize_limit fs \<and>
         (\<forall>q. q \<noteq> dest @ r \<longrightarrow> node_at fs' q = node_at fs q) \<and>
         (e \<noteq> None \<longrightarrow> node_at fs' (dest @ r) = node_at fs (dest @ r)) \<and>
         (e = None \<longrightarrow> node_at fs' (dest @ r) = overlay src dest fs (dest @ r) \<and> is_dir fs' (dest @ r))"
proof -
  have eq: "os_MkdirAll (dest @ r) m fs = (e, fs')"
    using assms(4) by (simp add: copyDirectory_walkFn_def Rel_prefix filepath_Join_def)
  show ?thesis
  proof (cases "node_at fs (dest @ r)")
    case (Some n)
    then show ?thesis using eq assms(1)
      by (cases n) (auto simp: MkdirAll_dir MkdirAll_file overlay_at merge_def is_dir_def)
  next
    case None
    with assms(2) have r: "r \<noteq> []" by (auto simp: is_dir_def)
    with assms(3) obtain mp where mp: "node_at fs (butlast (dest @ r)) = Some (Dir mp)"
      by (auto simp: is_dir_def butlast_append split: option.splits node.splits)
    from MkdirAll_leaf[OF None _ mp, of m] r eq
    show ?thesis using assms(1) None
      by (auto simp: overlay_at merge_def is_dir_def split: if_splits)
  qed
qed

lemma os_Create_cases:
  "(\<exists>e. os_Create p fs = Inl e) \<or>
   (\<exists>md. os_Create p fs = Inr (p, put p (File md []) fs) \<and>
      merge (umask fs) (File m b) (node_at fs p) = Some (File md b))"
  by (auto simp: os_Create_def merge_def split: option.splits node.splits)

lemma cb_file:
  assumes "node_at fs (src @ r) = Some (File m b)"
    and "src @ r \<noteq> dest @ r"
    and "copyDirectory_walkFn src dest (src @ r) (Some (FileInfo False m)) None fs = (e, fs')"
  shows "umask fs' = umask fs \<and> fsize_limit fs' = fsize_limit fs \<and>
         (\<forall>q. q \<noteq> dest @ r \<longrightarrow> node_at fs' q = node_at fs q) \<and>
         partial_at src dest fs (dest @ r) (node_at fs' (dest @ r)) \<and>
         (e = None \<longrightarrow> node_at fs' (dest @ r) = overlay src dest fs (dest @ r))"
proof -
  have ov: "overlay src dest fs (dest @ r) = merge (umask fs) (File m b) (node_at fs (dest @ r))"
    using assms(1) by (simp add: overlay_at)
  have unchanged: ?thesis if "e \<noteq> None" "fs' = fs"
    using that by (auto simp: partial_at_def)
  show ?thesis
  proof (cases "readable m")
    case False
    with assms(1,3) have "e = Some EACCES" "fs' = fs"
      by (auto simp: copyDirectory_walkFn_def Rel_prefix filepath_Join_def os_Open_def)
    then show ?thesis using unchanged by blast
  next
    case True
    then have op: "os_Open (src @ r) fs = Inr (src @ r)"
      using assms(1) by (simp add: os_Open_def)
    from os_Create_cases[of "dest @ r" fs m b] show ?thesis
    proof (elim disjE exE conjE)
      fix e1 assume "os_Create (dest @ r) fs = Inl e1"
      with op assms(3) have "e = Some e1" "fs' = fs"
        by (auto simp: copyDirectory_walkFn_def Rel_prefix filepath_Join_def)
      then show ?thesis using unchanged by blast
    next
      fix md assume c: "os_Create (dest @ r) fs = Inr (dest @ r, put (dest @ r) (File md []) fs)"
        and mg: "merge (umask fs) (File m b) (node_at fs (dest @ r)) = Some (File md b)"
      from c op assms(3) have io: "io_Copy (dest @ r) (src @ r) (put (dest @ r) (File md []) fs) = (e, fs')"
        by (auto simp: copyDirectory_walkFn_def Rel_prefix filepath_Join_def)
      show ?thesis
      proof (cases "length b \<le> fsize_limit fs")
        case True
        with io assms(1,2) have "e = None" "fs' = put (dest @ r) (File md b) (put (dest @ r) (File md []) fs)"
          by (auto simp: io_Copy_def)
        then show ?thesis using ov mg by (simp add: partial_at_def)
      next
        case False
        with io assms(1,2) have "e = Some EFBIG"
          "fs' = put (dest @ r) (File md (take (fsize_limit fs) b)) (put (dest @ r) (File md []) fs)"
          by (auto simp: io_Copy_def)
        then show ?thesis using ov mg assms(1) by (simp add: partial_at_def)
      qed
    qed
  qed
qed

lemma disjoint_under: "disjoint src dest \<Longrightarrow> prefix src q \<Longrightarrow> prefix dest q \<Longrightarrow> False"
  unfolding disjoint_def using prefix_same_cases by blast

lemma disjoint_neq: "disjoint src dest \<Longrightarrow> src @ r \<noteq> dest @ r'"
  using disjoint_under[of src dest "src @ r"] by auto

lemma tree_belowD:
  assumes "tree_below fs src" "strict_prefix src q" "node_at fs q \<noteq> None"
  shows "is_dir fs (butlast q)"
proof -
  from assms(3) obtain n where "map_of (entries fs) q = Some n"
    by (auto simp: node_at_def)
  then have "(q, n) \<in> set (entries fs)" by (rule map_of_SomeD)
  with assms(1,2) show ?thesis by (force simp: tree_below_def)
qed

lemma tree_belowI:
  assumes "\<And>q. strict_prefix src q \<Longrightarrow> node_at fs q \<noteq> None \<Longrightarrow> is_dir fs (butlast q)"
  shows "tree_below fs src"
  unfolding tree_below_def
proof (intro ballI impI)
  fix e assume e: "e \<in> set (entries fs)" "strict_prefix src (fst e)"
  then have "fst e \<in> fst ` set (entries fs)" by simp
  then have "node_at fs (fst e) \<noteq> None"
    by (simp add: node_at_def map_of_eq_None_iff)
  with assms e show "is_dir fs (butlast (fst e))" by blast
qed

lemma tree_below_cong:
  assumes "tree_below fs src" "\<And>q. prefix src q \<Longrightarrow> node_at fs1 q = node_at fs q"
  shows "tree_below fs1 src"
proof (rule tree_belowI)
  fix q assume q: "strict_prefix src q" "node_at fs1 q \<noteq> None"
  then have "node_at fs q \<noteq> None" using assms(2)[of q] by (simp add: strict_prefix_def)
  from tree_belowD[OF assms(1) q(1) this] have "is_dir fs (butlast q)" .
  moreover have "prefix src (butlast q)"
    using q(1) by (metis append_butlast_last_id prefix_snoc strict_prefix_def prefix_bot.extremum_uniqueI prefix_order.order_refl)
  ultimately show "is_dir fs1 (butlast q)"
    using assms(2)[of "butlast q"] by (simp add: is_dir_def)
qed

lemma below_dir:
  assumes "tree_below fs src"
  shows "node_at fs (src @ r1 @ r2) \<noteq> None \<Longrightarrow> r2 \<noteq> [] \<Longrightarrow> is_dir fs (src @ r1)"
proof (induction r2 rule: rev_induct)
  case Nil
  then show ?case by simp
next
  case (snoc c r2)
  have "strict_prefix src (src @ r1 @ r2 @ [c])" by (simp add: strict_prefix_def)
  from tree_belowD[OF assms this] snoc.prems(1)
  have d: "is_dir fs (src @ r1 @ r2)"
    by (simp add: butlast_append)
  show ?case
  proof (cases "r2 = []")
    case True
    with d show ?thesis by simp
  next
    case False
    from d have "node_at fs (src @ r1 @ r2) \<noteq> None" by (auto simp: is_dir_def split: option.splits)
    from snoc.IH[OF this False] show ?thesis .
  qed
qed

lemma overlay_no_source:
  assumes "tree_below fs src" "\<not> is_dir fs (src @ r)" "x \<noteq> []"
  shows "overlay src dest fs (dest @ r @ x) = node_at fs (dest @ r @ x)"
proof -
  have "node_at fs (src @ r @ x) = None"
    using below_dir[OF assms(1), of r x] assms(2,3) by blast
  then show ?thesis by (simp add: overlay_def)
qed

lemma confined_refl: "e \<noteq> None \<Longrightarrow> confined src dest A fs e fs"
  by (auto simp: confined_def partial_at_def)

lemma confined_widen_fail:
  "confined src dest A fs e fs' \<Longrightarrow> e \<noteq> None \<Longrightarrow> (\<And>q. A q \<Longrightarrow> B q) \<Longrightarrow> confined src dest B fs e fs'"
  unfolding confined_def
  by (metis partial_at_def)

lemma confined_widen:
  assumes "confined src dest A fs e fs'" "\<And>q. A q \<Longrightarrow> B q"
    "\<And>q. B q \<Longrightarrow> \<not> A q \<Longrightarrow> overlay src dest fs q = node_at fs q"
  shows "confined src dest B fs e fs'"
  using assms unfolding confined_def
  by (metis partial_at_def)

lemma overlay_cong:
  assumes "umask fs1 = umask fs" "node_at fs1 q = node_at fs q"
    "node_at fs1 (src @ drop (length dest) q) = node_at fs (src @ drop (length dest) q)"
  shows "overlay src dest fs1 q = overlay src dest fs q"
  using assms by (simp add: overlay_def split: option.splits)

lemma partial_at_cong:
  assumes "umask fs1 = umask fs" "fsize_limit fs1 = fsize_limit fs" "node_at fs1 q = node_at fs q"
    "node_at fs1 (src @ drop (length dest) q) = node_at fs (src @ drop (length dest) q)"
  shows "partial_at src dest fs1 q v = partial_at src dest fs q v"
  using assms overlay_cong[OF assms(1,3,4)] by (simp add: partial_at_def)

lemma confined_seq:
  assumes dj: "disjoint src dest"
    and c1: "confined src dest A fs None fs1"
    and c2: "confined src dest B fs1 e fs'"
    and AB: "\<And>q. B q \<Longrightarrow> \<not> A q"
    and Ad: "\<And>q. A q \<Longrightarrow> prefix dest q"
  shows "confined src dest (\<lambda>q. A q \<or> B q) fs e fs'"
proof -
  have src_same: "node_at fs1 (src @ x) = node_at fs (src @ x)" for x
  proof -
    have "\<not> A (src @ x)" using Ad[of "src @ x"] disjoint_under[OF dj, of "src @ x"] by auto
    with c1 show ?thesis by (simp add: confined_def)
  qed
  have par: "umask fs1 = umask fs" "fsize_limit fs1 = fsize_limit fs"
    using c1 by (auto simp: confined_def)
  have ovB: "overlay src dest fs1 q = overlay src dest fs q"
    and paB: "partial_at src dest fs1 q v = partial_at src dest fs q v" if "B q" for q v
  proof -
    from that AB have "\<not> A q" by blast
    with c1 have same: "node_at fs1 q = node_at fs q" by (simp add: confined_def)
    show "overlay src dest fs1 q = overlay src dest fs q"
      by (rule overlay_cong[OF par(1) same src_same])
    show "partial_at src dest fs1 q v = partial_at src dest fs q v"
      by (rule partial_at_cong[OF par same src_same])
  qed
  show ?thesis
    unfolding confined_def
  proof (intro conjI allI impI)
    show "umask fs' = umask fs" "fsize_limit fs' = fsize_limit fs"
      using c1 c2 by (auto simp: confined_def)
  next
    fix q assume "\<not> (A q \<or> B q)"
    then show "node_at fs' q = node_at fs q"
      using c1 c2 by (simp add: confined_def)
  next
    fix q assume q: "A q \<or> B q"
    show "partial_at src dest fs q (node_at fs' q)"
    proof (cases "B q")
      case True
      then show ?thesis using c2 paB by (simp add: confined_def)
    next
      case False
      with q have a: "A q" by blast
      from False c2 have "node_at fs' q = node_at fs1 q" by (simp add: confined_def)
      also from a c1 have "\<dots> = overlay src dest fs q" by (simp add: confined_def)
      finally show ?thesis by (simp add: partial_at_def)
    qed
  next
    fix q assume e: "e = None" and q: "A q \<or> B q"
    show "node_at fs' q = overlay src dest fs q"
    proof (cases "B q")
      case True
      then show ?thesis using c2 ovB e by (simp add: confined_def)
    next
      case False
      with q have a: "A q" by blast
      from False c2 have "node_at fs' q = node_at fs1 q" by (simp add: confined_def)
      also from a c1 have "\<dots> = overlay src dest fs q" by (simp add: confined_def)
      finally show ?thesis .
    qed
  qed
qed

lemma confined_src_same:
  assumes "disjoint src dest" "confined src dest A fs e fs'" "\<And>q. A q \<Longrightarrow> prefix dest q" "prefix src q"
  shows "node_at fs' q = node_at fs q"
proof -
  have "\<not> A q" using assms(3)[of q] disjoint_under[OF assms(1) assms(4)] by blast
  with assms(2) show ?thesis by (simp add: confined_def)
qed

lemma Lstat_dir: "os_Lstat p fs = Inr info \<Longrightarrow> IsDir info \<Longrightarrow> node_at fs p = Some (Dir (Mode info)) \<and> info = FileInfo True (Mode info)"
  by (auto simp: os_Lstat_def split: option.splits node.splits)

lemma Lstat_file: "os_Lstat p fs = Inr info \<Longrightarrow> \<not> IsDir info \<Longrightarrow> \<exists>b. node_at fs p = Some (File (Mode info) b) \<and> info = FileInfo False (Mode info)"
  by (auto simp: os_Lstat_def split: option.splits node.splits)

lemma prefix_snoc_both: "prefix (d @ [a]) q \<Longrightarrow> prefix (d @ [b]) q \<Longrightarrow> a = b"
  by (auto simp: prefix_def)

lemma rest_no_source:
  assumes tb: "tree_below fs src" and names: "readDirNames (src @ r) fs = Inr names"
    and q: "prefix (dest @ r) q" "q \<noteq> dest @ r" "\<not> (\<exists>c\<in>set names. prefix (dest @ r @ [c]) q)"
  shows "overlay src dest fs q = node_at fs q"
proof -
  from q(1) obtain y where "q = (dest @ r) @ y" unfolding prefix_def by blast
  with q(2) obtain c x where qx: "q = dest @ r @ c # x"
    by (cases y) auto
  with q(3) have "c \<notin> set names" by auto
  with readDirNames_set[OF names] have none: "node_at fs (src @ r @ [c]) = None" by auto
  have "node_at fs (src @ r @ c # x) = None"
  proof (cases "x = []")
    case True
    with none show ?thesis by simp
  next
    case False
    show ?thesis
    proof (rule ccontr)
      assume "node_at fs (src @ r @ c # x) \<noteq> None"
      then have "node_at fs (src @ (r @ [c]) @ x) \<noteq> None" by simp
      from below_dir[OF tb this False] none show False by (simp add: is_dir_def)
    qed
  qed
  then show ?thesis by (simp add: overlay_def qx)
qed

lemma walk_confined:
  fixes src dest :: path
  assumes dj: "disjoint src dest"
  shows "\<And>r e fs'. \<lbrakk>w = copyDirectory_walkFn src dest; p = src @ r; tree_below fs src;
            os_Lstat p fs = Inr info; r = [] \<longrightarrow> is_dir fs dest; r \<noteq> [] \<longrightarrow> is_dir fs (dest @ butlast r);
            walk k w p info fs = Some (e, fs')\<rbrakk>
          \<Longrightarrow> confined src dest (prefix (dest @ r)) fs e fs'"
    and "\<And>r e fs'. \<lbrakk>w = copyDirectory_walkFn src dest; p = src @ r; tree_below fs src;
            is_dir fs (dest @ r); distinct names;
            walk_names k w p names fs = Some (e, fs')\<rbrakk>
          \<Longrightarrow> confined src dest (\<lambda>q. \<exists>c\<in>set names. prefix (dest @ r @ [c]) q) fs e fs'"
proof (induction k w p info fs and k w p names fs rule: walk_walk_names.induct)
  case (1 walkFn p info fs)
  then show ?case by simp
next
  case (2 k walkFn p info fs)
  note w = \<open>walkFn = copyDirectory_walkFn src dest\<close> and p = \<open>p = src @ r\<close>
    and tb = \<open>tree_below fs src\<close> and ls = \<open>os_Lstat p fs = Inr info\<close>
  show ?case
  proof (cases "IsDir info")
    case False
    from Lstat_file[OF ls False] obtain b where
      nb: "node_at fs (src @ r) = Some (File (Mode info) b)" and info: "info = FileInfo False (Mode info)"
      unfolding p by blast
    from "2.prems"(7) False have "walkFn p (Some info) None fs = (e, fs')" by simp
    then have cb: "copyDirectory_walkFn src dest (src @ r) (Some (FileInfo False (Mode info))) None fs = (e, fs')"
      using w p info by simp
    from cb_file[OF nb disjoint_neq[OF dj] cb]
    have c: "confined src dest (\<lambda>q. q = dest @ r) fs e fs'"
      by (simp add: confined_def)
    have nd: "\<not> is_dir fs (src @ r)" using nb by (simp add: is_dir_def)
    show ?thesis
    proof (rule confined_widen[OF c])
      fix q assume "prefix (dest @ r) q" "q \<noteq> dest @ r"
      then obtain x where "q = dest @ r @ x" "x \<noteq> []" unfolding prefix_def by auto
      then show "overlay src dest fs q = node_at fs q"
        using overlay_no_source[OF tb nd] by simp
    qed simp
  next
    case True
    from Lstat_dir[OF ls True] have
      nb: "node_at fs (src @ r) = Some (Dir (Mode info))" and info: "info = FileInfo True (Mode info)"
      unfolding p by auto
    show ?thesis
    proof (cases "readDirNames p fs")
      case (Inl err)
      with "2.prems"(7) True w have "e = Some err" "fs' = fs"
        by (auto simp: cb_err)
      then show ?thesis by (simp add: confined_refl)
    next
      case (Inr names)
      obtain e1 fs1 where cb0: "walkFn p (Some info) None fs = (e1, fs1)" by fastforce
      then have cb: "copyDirectory_walkFn src dest (src @ r) (Some (FileInfo True (Mode info))) None fs = (e1, fs1)"
        using w p info by simp
      from cb_dir[OF nb "2.prems"(5,6) cb]
      have c1: "confined src dest (\<lambda>q. q = dest @ r) fs e1 fs1"
        and d1: "e1 = None \<longrightarrow> is_dir fs1 (dest @ r)"
        by (auto simp: confined_def partial_at_def)
      show ?thesis
      proof (cases e1)
        case (Some x)
        with "2.prems"(7) True Inr cb0 have "e = e1" "fs' = fs1" by auto
        with c1 have c1': "confined src dest (\<lambda>q. q = dest @ r) fs e fs'" by simp
        show ?thesis
          by (rule confined_widen_fail[OF c1']) (use Some \<open>e = e1\<close> in auto)
      next
        case None
        with "2.prems"(7) True Inr cb0 have wn: "walk_names k walkFn p names fs1 = Some (e, fs')"
          by simp
        have same: "node_at fs1 q = node_at fs q" if "prefix src q" for q
          by (rule confined_src_same[OF dj c1 _ that]) simp
        have tb1: "tree_below fs1 src" by (rule tree_below_cong[OF tb same])
        have dn: "distinct names" using readDirNames_sorted[OF Inr] by simp
        from "2.IH"[OF _ Inr cb0[symmetric] None w p tb1 _ dn wn] True d1 None
        have c2: "confined src dest (\<lambda>q. \<exists>c\<in>set names. prefix (dest @ r @ [c]) q) fs1 e fs'"
          by simp
        have c12: "confined src dest (\<lambda>q. q = dest @ r \<or> (\<exists>c\<in>set names. prefix (dest @ r @ [c]) q)) fs e fs'"
          using c1 unfolding None
        proof (rule confined_seq[OF dj _ c2])
          fix q assume "\<exists>c\<in>set names. prefix (dest @ r @ [c]) q"
          then show "q \<noteq> dest @ r" by (auto simp: prefix_def)
        next
          fix q :: path assume "q = dest @ r"
          then show "prefix dest q" by simp
        qed
        show ?thesis
        proof (rule confined_widen[OF c12])
          fix q assume "q = dest @ r \<or> (\<exists>c\<in>set names. prefix (dest @ r @ [c]) q)"
          then show "prefix (dest @ r) q"
            using append_prefixD[of "dest @ r" _ q] by auto
        next
          fix q assume "prefix (dest @ r) q"
            "\<not> (q = dest @ r \<or> (\<exists>c\<in>set names. prefix (dest @ r @ [c]) q))"
          then show "overlay src dest fs q = node_at fs q"
            using rest_no_source[OF tb Inr[unfolded p]] by blast
        qed
      qed
    qed
  qed
next
  case (3 k walkFn p fs)
  then show ?case by (simp add: confined_def)
next
  case (4 k walkFn p name names fs)
  note w = \<open>walkFn = copyDirectory_walkFn src dest\<close> and p = \<open>p = src @ r\<close>
    and tb = \<open>tree_below fs src\<close> and dd = \<open>is_dir fs (dest @ r)\<close>
  let ?f = "filepath_Join p [name]"
  have f: "?f = src @ (r @ [name])" by (simp add: filepath_Join_def p)
  from \<open>distinct (name # names)\<close> have dn: "distinct names" and nn: "name \<notin> set names" by auto
  show ?case
  proof (cases "os_Lstat ?f fs")
    case (Inl a)
    with "4.prems"(6) w have "e = Some a" "fs' = fs"
      by (auto simp: cb_err Let_def)
    then show ?thesis by (simp add: confined_refl)
  next
    case (Inr b)
    show ?thesis
    proof (cases "walk k walkFn ?f b fs")
      case None
      with "4.prems"(6) Inr show ?thesis by (simp add: Let_def)
    next
      case (Some x2)
      obtain e1 fs1 where x2: "x2 = (e1, fs1)" by fastforce
      have w1: "walk k walkFn ?f b fs = Some (e1, fs1)" using Some x2 by simp
      have c1: "confined src dest (prefix (dest @ (r @ [name]))) fs e1 fs1"
        by (rule "4.IH"(2)[OF refl Inr w f tb Inr _ _ w1]) (use dd in simp_all)
      show ?thesis
      proof (cases e1)
        case (Some err1)
        with "4.prems"(6) Inr w1 have "e = e1" "fs' = fs1" by (auto simp: Let_def)
        with c1 have c1': "confined src dest (prefix (dest @ (r @ [name]))) fs e fs'" by simp
        show ?thesis
          by (rule confined_widen_fail[OF c1']) (use Some \<open>e = e1\<close> in auto)
      next
        case None
        with "4.prems"(6) Inr w1 have wn: "walk_names k walkFn p names fs1 = Some (e, fs')"
          by (simp add: Let_def)
        have same: "node_at fs1 q = node_at fs q" if "prefix src q" for q
        proof (rule confined_src_same[OF dj c1 _ that])
          fix q assume "prefix (dest @ r @ [name]) q"
          then show "prefix dest q" by (rule append_prefixD)
        qed
        have tb1: "tree_below fs1 src" by (rule tree_below_cong[OF tb same])
        have "node_at fs1 (dest @ r) = node_at fs (dest @ r)"
          using c1 by (simp add: confined_def)
        with dd have dd1: "is_dir fs1 (dest @ r)" by (simp add: is_dir_def)
        have c2: "confined src dest (\<lambda>q. \<exists>c\<in>set names. prefix (dest @ r @ [c]) q) fs1 e fs'"
          by (rule "4.IH"(3)[OF refl Inr Some x2[symmetric] None w p tb1 dd1 dn wn])
        have "confined src dest (\<lambda>q. prefix (dest @ (r @ [name])) q \<or> (\<exists>c\<in>set names. prefix (dest @ r @ [c]) q)) fs e fs'"
          using c1 unfolding None
        proof (rule confined_seq[OF dj _ c2])
          fix q assume "\<exists>c\<in>set names. prefix (dest @ r @ [c]) q"
          then show "\<not> prefix (dest @ (r @ [name])) q"
            using nn prefix_snoc_both[of "dest @ r" name q] by auto
        next
          fix q assume "prefix (dest @ r @ [name]) q"
          then show "prefix dest q" by (rule append_prefixD)
        qed
        then show ?thesis by simp
      qed
    qed
  qed
qed

lemma copy_confined:
  assumes dj: "disjoint src dest" and tb: "tree_below fs src" and dd: "is_dir fs dest"
    and c: "copyDirectory k src dest fs = Some (e, fs')"
  shows "confined src dest (prefix dest) fs e fs'"
proof (cases "os_Lstat src fs")
  case (Inl err)
  with c have "e = Some err" "fs' = fs"
    by (auto simp: copyDirectory_def filepath_Walk_def cb_err)
  then show ?thesis by (simp add: confined_refl)
next
  case (Inr info)
  with c have w: "walk k (copyDirectory_walkFn src dest) (src @ []) info fs = Some (e, fs')"
    by (simp add: copyDirectory_def filepath_Walk_def)
  from walk_confined(1)[OF dj refl refl tb _ _ _ w] Inr dd show ?thesis by simp
qed

lemma partial_at_no_source:
  assumes "partial_at src dest fs (dest @ r) v" "node_at fs (src @ r) = None"
  shows "v = node_at fs (dest @ r)"
  using assms by (auto simp: partial_at_def overlay_def)

lemma partial_at_Some:
  assumes "partial_at src dest fs q v" "node_at fs q \<noteq> None"
  shows "v \<noteq> None"
  using assms by (auto simp: partial_at_def overlay_def merge_def split: option.splits node.splits if_splits)

lemma partial_at_dir:
  assumes "partial_at src dest fs q v" "node_at fs q = Some (Dir m)"
  shows "v = Some (Dir m) \<or> (\<exists>ms b. prefix dest q \<and> node_at fs (src @ drop (length dest) q) = Some (File ms b))"
  using assms by (auto simp: partial_at_def overlay_def merge_def split: option.splits node.splits if_splits)

section \<open>What a copy leaves behind\<close>

text \<open>
  Claim C7, as amended. When neither tree lies inside the other, the table describes a
  tree below the source and the destination is a directory, a copy, finished or
  failed, changes nothing below the source and nothing outside the destination;
  below the destination it leaves every path alone at which the source has no
  entry, and it removes no entry anywhere.
\<close>

theorem copy_leaves_source_and_unrelated:
  assumes "disjoint src dest" and "tree_below fs src" and "is_dir fs dest"
    and "copyDirectory k src dest fs = Some (e, fs')"
  shows "(\<forall>q. prefix src q \<longrightarrow> node_at fs' q = node_at fs q) \<and>
         (\<forall>q. \<not> prefix dest q \<longrightarrow> node_at fs' q = node_at fs q) \<and>
         (\<forall>r. node_at fs (src @ r) = None \<longrightarrow> node_at fs' (dest @ r) = node_at fs (dest @ r)) \<and>
         (\<forall>q. node_at fs q \<noteq> None \<longrightarrow> node_at fs' q \<noteq> None)"
proof -
  note c = copy_confined[OF assms]
  have 1: "node_at fs' q = node_at fs q" if "prefix src q" for q
    by (rule confined_src_same[OF assms(1) c _ that])
  have 2: "node_at fs' q = node_at fs q" if "\<not> prefix dest q" for q
    using c that by (simp add: confined_def)
  have 3: "node_at fs' (dest @ r) = node_at fs (dest @ r)" if "node_at fs (src @ r) = None" for r
  proof -
    from c have "partial_at src dest fs (dest @ r) (node_at fs' (dest @ r))"
      by (simp add: confined_def)
    from partial_at_no_source[OF this that] show ?thesis .
  qed
  have 4: "node_at fs' q \<noteq> None" if "node_at fs q \<noteq> None" for q
  proof (cases "prefix dest q")
    case True
    with c have "partial_at src dest fs q (node_at fs' q)" by (simp add: confined_def)
    from partial_at_Some[OF this that] show ?thesis .
  next
    case False
    with 2 that show ?thesis by simp
  qed
  from 1 2 3 4 show ?thesis by blast
qed

lemma merge_fs_ok: "disjoint [''s''] [''d''] \<and> tree_below merge_fs [''s''] \<and> is_dir merge_fs [''d'']"
  by code_simp

lemma merge_fs_copy:
  "copyDirectory 2 [''s''] [''d''] merge_fs =
     Some (None, \<lparr>entries = [([], Dir 493), ([''s''], Dir 493), ([''s'', ''a''], File 420 ''hi''),
       ([''d''], Dir 493), ([''d'', ''old''], Dir 493), ([''d'', ''a''], File 420 ''hi'')],
      umask = 18, fsize_limit = 8\<rparr>)"
  by code_simp

theorem copy_leaves_source_and_unrelated_witness:
  "disjoint [''s''] [''d''] \<and> tree_below merge_fs [''s''] \<and> is_dir merge_fs [''d''] \<and>
   fst (the (copyDirectory 2 [''s''] [''d''] merge_fs)) = None \<and>
   node_at (snd (the (copyDirectory 2 [''s''] [''d''] merge_fs))) [''s'', ''a''] = node_at merge_fs [''s'', ''a''] \<and>
   node_at (snd (the (copyDirectory 2 [''s''] [''d''] merge_fs))) [''d'', ''old''] = node_at merge_fs [''d'', ''old'']"
proof -
  let ?fs' = "snd (the (copyDirectory 2 [''s''] [''d''] merge_fs))"
  have c: "copyDirectory 2 [''s''] [''d''] merge_fs = Some (None, ?fs')"
    by (simp add: merge_fs_copy)
  have f: "fst (the (copyDirectory 2 [''s''] [''d''] merge_fs)) = None"
    by (simp add: merge_fs_copy)
  have n: "node_at merge_fs ([''s''] @ [''old'']) = None" by code_simp
  from merge_fs_ok have h: "disjoint [''s''] [''d'']" "tree_below merge_fs [''s'']" "is_dir merge_fs [''d'']"
    by blast+
  from copy_leaves_source_and_unrelated[OF h c]
  have "node_at ?fs' [''s'', ''a''] = node_at merge_fs [''s'', ''a'']"
    and "node_at ?fs' ([''d''] @ [''old'']) = node_at merge_fs ([''d''] @ [''old''])"
    using n by auto
  with h f show ?thesis by simp
qed

text \<open>
  With the source inside the destination the claim fails as it is stated: the copy
  of \<^verbatim>\<open>/d/s\<close> to \<^verbatim>\<open>/d\<close> writes \<^verbatim>\<open>/d/s/s/f\<close> over the source file \<^verbatim>\<open>/d/s/f\<close>.
\<close>

theorem copy_overwrites_source_counterexample:
  "fst (the (copyDirectory 3 [''d'', ''s''] [''d''] inside_fs)) = None \<and>
   node_at inside_fs [''d'', ''s'', ''f''] = Some (File 420 ''old'') \<and>
   node_at (snd (the (copyDirectory 3 [''d'', ''s''] [''d''] inside_fs))) [''d'', ''s'', ''f'']
     = Some (File 420 ''new'')"
  by code_simp

text \<open>
  Claim C1, as amended. Under the same conditions, after a copy that reports no
  error every file of the source is at the same relative path below the
  destination with the same content, with the mode of the file that was there or
  \<^verbatim>\<open>0666\<close> less the umask; every directory of the source is a directory there; the
  directories below the destination are those of the source and those that the
  destination had at paths where the source has no entry; and the source is as
  before.
\<close>

theorem successful_copy_is_replica:
  assumes "disjoint src dest" and "tree_below fs src" and "is_dir fs dest"
    and "copyDirectory k src dest fs = Some (None, fs')"
  shows "(\<forall>r m b. node_at fs (src @ r) = Some (File m b) \<longrightarrow>
            node_at fs' (dest @ r) =
              Some (File (case node_at fs (dest @ r) of Some (File mo bo) \<Rightarrow> mo
                          | _ \<Rightarrow> 438 AND NOT (umask fs)) b)) \<and>
         (\<forall>r m. node_at fs (src @ r) = Some (Dir m) \<longrightarrow> is_dir fs' (dest @ r)) \<and>
         (\<forall>r. is_dir fs' (dest @ r) \<longleftrightarrow>
            is_dir fs (src @ r) \<or> (node_at fs (src @ r) = None \<and> is_dir fs (dest @ r))) \<and>
         (\<forall>r. node_at fs' (src @ r) = node_at fs (src @ r))"
proof -
  note c = copy_confined[OF assms]
  have ov: "node_at fs' (dest @ r) = overlay src dest fs (dest @ r)" for r
    using c by (simp add: confined_def)
  have 1: "node_at fs' (dest @ r) =
              Some (File (case node_at fs (dest @ r) of Some (File mo bo) \<Rightarrow> mo
                          | _ \<Rightarrow> 438 AND NOT (umask fs)) b)"
    if "node_at fs (src @ r) = Some (File m b)" for r m b
    using that by (simp add: ov overlay_at merge_def)
  have 2: "is_dir fs' (dest @ r)" if "node_at fs (src @ r) = Some (Dir m)" for r m
    using that by (auto simp: is_dir_def ov overlay_at merge_def split: option.splits node.splits)
  have 3: "is_dir fs' (dest @ r) \<longleftrightarrow>
            is_dir fs (src @ r) \<or> (node_at fs (src @ r) = None \<and> is_dir fs (dest @ r))" for r
    by (auto simp: is_dir_def ov overlay_at merge_def split: option.splits node.splits)
  have 4: "node_at fs' (src @ r) = node_at fs (src @ r)" for r
    by (rule confined_src_same[OF assms(1) c]) simp_all
  from 1 2 3 4 show ?thesis by blast
qed

theorem successful_copy_is_replica_witness:
  "disjoint [''s''] [''d''] \<and> tree_below merge_fs [''s''] \<and> is_dir merge_fs [''d''] \<and>
   fst (the (copyDirectory 2 [''s''] [''d''] merge_fs)) = None \<and>
   node_at merge_fs [''s'', ''a''] = Some (File 420 ''hi'') \<and>
   node_at (snd (the (copyDirectory 2 [''s''] [''d''] merge_fs))) [''d'', ''a''] = Some (File 420 ''hi'') \<and>
   is_dir (snd (the (copyDirectory 2 [''s''] [''d''] merge_fs))) [''d'']"
proof -
  let ?fs' = "snd (the (copyDirectory 2 [''s''] [''d''] merge_fs))"
  have c: "copyDirectory 2 [''s''] [''d''] merge_fs = Some (None, ?fs')"
    by (simp add: merge_fs_copy)
  have f: "fst (the (copyDirectory 2 [''s''] [''d''] merge_fs)) = None"
    by (simp add: merge_fs_copy)
  have n: "node_at merge_fs ([''s''] @ [''a'']) = Some (File 420 ''hi'')"
    "node_at merge_fs ([''d''] @ [''a'']) = None" "node_at merge_fs ([''s''] @ []) = Some (Dir 493)"
    "umask merge_fs = 18"
    by code_simp+
  from merge_fs_ok have h: "disjoint [''s''] [''d'']" "tree_below merge_fs [''s'']" "is_dir merge_fs [''d'']"
    by blast+
  from successful_copy_is_replica[OF h c] n
  have "node_at ?fs' ([''d''] @ [''a'']) = Some (File (438 AND NOT 18) ''hi'')"
    and "is_dir ?fs' ([''d''] @ [])"
    by auto
  with h f n show ?thesis by simp
qed

text \<open>
  The claim as stated asks for the same set of directories on both sides. A
  destination that held a directory before the copy still holds it afterwards:
  \<^verbatim>\<open>/d/old\<close> is a directory after the copy of \<^verbatim>\<open>/s\<close> to \<^verbatim>\<open>/d\<close>, and \<^verbatim>\<open>/s/old\<close> is not.
\<close>

theorem replica_directories_counterexample:
  "fst (the (copyDirectory 2 [''s''] [''d''] merge_fs)) = None \<and>
   is_dir (snd (the (copyDirectory 2 [''s''] [''d''] merge_fs))) [''d'', ''old''] \<and>
   \<not> is_dir (snd (the (copyDirectory 2 [''s''] [''d''] merge_fs))) [''s'', ''old'']"
  by code_simp

section \<open>Directories and the order of the walk\<close>

lemma walk_names_append:
  "walk_names k fn p (ns1 @ ns2) fs =
     (case walk_names k fn p ns1 fs of
        None \<Rightarrow> None
      | Some (Some e, fs1) \<Rightarrow> Some (Some e, fs1)
      | Some (None, fs1) \<Rightarrow> walk_names k fn p ns2 fs1)"
proof (induction ns1 arbitrary: fs)
  case Nil
  then show ?case by simp
next
  case (Cons n ns1)
  show ?case
    by (simp add: Let_def Cons.IH split: sum.splits option.splits prod.splits)
qed

text \<open>
  Claim C5. The callback of \<^verbatim>\<open>copyDirectory\<close> returns the first error it meets and
  does nothing after it: the error the walk hands in, the error of
  \<^verbatim>\<open>filepath.Rel\<close>, the result of \<^verbatim>\<open>os.MkdirAll\<close> for a directory, the error of
  \<^verbatim>\<open>os.Open\<close> or of \<^verbatim>\<open>os.Create\<close> for a file, and otherwise the result of \<^verbatim>\<open>io.Copy\<close>,
  each with the table as that call left it. The walk returns the callback's result
  for a file; for a directory that cannot be listed or whose callback fails it
  returns that error and visits nothing below; in the loop over the names of a
  directory a name that cannot be looked up, or whose walk fails, ends the loop with
  that error and with the table as it then is, and the names after it are not
  visited. \<^verbatim>\<open>copyDirectory\<close> returns what the walk returns, and a source that cannot
  be looked up is reported with the table untouched.
\<close>

theorem first_error_stops_walk:
  "copyDirectory_walkFn src dest p info (Some err) fs = (Some err, fs) \<and>
   (filepath_Rel src p = Inl x \<longrightarrow>
      copyDirectory_walkFn src dest p info None fs = (Some x, fs)) \<and>
   (filepath_Rel src p = Inr rel \<and> IsDir i \<longrightarrow>
      copyDirectory_walkFn src dest p (Some i) None fs =
        os_MkdirAll (filepath_Join dest rel) (Mode i) fs) \<and>
   (filepath_Rel src p = Inr rel \<and> \<not> IsDir i \<and> os_Open p fs = Inl x \<longrightarrow>
      copyDirectory_walkFn src dest p (Some i) None fs = (Some x, fs)) \<and>
   (filepath_Rel src p = Inr rel \<and> \<not> IsDir i \<and> os_Open p fs = Inr h \<and>
    os_Create (filepath_Join dest rel) fs = Inl x \<longrightarrow>
      copyDirectory_walkFn src dest p (Some i) None fs = (Some x, fs)) \<and>
   (filepath_Rel src p = Inr rel \<and> \<not> IsDir i \<and> os_Open p fs = Inr h \<and>
    os_Create (filepath_Join dest rel) fs = Inr (df, fs1) \<longrightarrow>
      copyDirectory_walkFn src dest p (Some i) None fs = io_Copy df h fs1) \<and>
   (\<not> IsDir info1 \<longrightarrow>
      walk (Suc k) (copyDirectory_walkFn src dest) p info1 fs =
        Some (copyDirectory_walkFn src dest p (Some info1) None fs)) \<and>
   (IsDir info1 \<and> readDirNames p fs = Inl err \<longrightarrow>
      walk (Suc k) (copyDirectory_walkFn src dest) p info1 fs = Some (Some err, fs)) \<and>
   (IsDir info1 \<and> readDirNames p fs = Inr names \<and>
    copyDirectory_walkFn src dest p (Some info1) None fs = (Some e1, fs2) \<longrightarrow>
      walk (Suc k) (copyDirectory_walkFn src dest) p info1 fs = Some (Some e1, fs2)) \<and>
   (os_Lstat (filepath_Join p [name]) fs = Inl err \<longrightarrow>
      walk_names k (copyDirectory_walkFn src dest) p (name # names) fs = Some (Some err, fs)) \<and>
   (os_Lstat (filepath_Join p [name]) fs = Inr info2 \<and>
    walk k (copyDirectory_walkFn src dest) (filepath_Join p [name]) info2 fs = Some (Some e1, fs2) \<longrightarrow>
      walk_names k (copyDirectory_walkFn src dest) p (name # names) fs = Some (Some e1, fs2)) \<and>
   walk_names k (copyDirectory_walkFn src dest) p (ns1 @ ns2) fs =
     (case walk_names k (copyDirectory_walkFn src dest) p ns1 fs of
        None \<Rightarrow> None
      | Some (Some e, fs3) \<Rightarrow> Some (Some e, fs3)
      | Some (None, fs3) \<Rightarrow> walk_names k (copyDirectory_walkFn src dest) p ns2 fs3) \<and>
   (os_Lstat src fs = Inl err \<longrightarrow> copyDirectory k src dest fs = Some (Some err, fs)) \<and>
   (os_Lstat src fs = Inr info1 \<longrightarrow>
      copyDirectory k src dest fs = walk k (copyDirectory_walkFn src dest) src info1 fs)"
proof -
  have cb: "copyDirectory_walkFn src dest p info (Some err) fs = (Some err, fs)"
    "filepath_Rel src p = Inl x \<longrightarrow> copyDirectory_walkFn src dest p info None fs = (Some x, fs)"
    "filepath_Rel src p = Inr rel \<and> IsDir i \<longrightarrow>
      copyDirectory_walkFn src dest p (Some i) None fs =
        os_MkdirAll (filepath_Join dest rel) (Mode i) fs"
    "filepath_Rel src p = Inr rel \<and> \<not> IsDir i \<and> os_Open p fs = Inl x \<longrightarrow>
      copyDirectory_walkFn src dest p (Some i) None fs = (Some x, fs)"
    "filepath_Rel src p = Inr rel \<and> \<not> IsDir i \<and> os_Open p fs = Inr h \<and>
     os_Create (filepath_Join dest rel) fs = Inl x \<longrightarrow>
      copyDirectory_walkFn src dest p (Some i) None fs = (Some x, fs)"
    "filepath_Rel src p = Inr rel \<and> \<not> IsDir i \<and> os_Open p fs = Inr h \<and>
     os_Create (filepath_Join dest rel) fs = Inr (df, fs1) \<longrightarrow>
      copyDirectory_walkFn src dest p (Some i) None fs = io_Copy df h fs1"
    by (simp_all add: copyDirectory_walkFn_def)
  have w: "\<not> IsDir info1 \<longrightarrow>
      walk (Suc k) (copyDirectory_walkFn src dest) p info1 fs =
        Some (copyDirectory_walkFn src dest p (Some info1) None fs)"
    "IsDir info1 \<and> readDirNames p fs = Inl err \<longrightarrow>
      walk (Suc k) (copyDirectory_walkFn src dest) p info1 fs = Some (Some err, fs)"
    "IsDir info1 \<and> readDirNames p fs = Inr names \<and>
     copyDirectory_walkFn src dest p (Some info1) None fs = (Some e1, fs2) \<longrightarrow>
      walk (Suc k) (copyDirectory_walkFn src dest) p info1 fs = Some (Some e1, fs2)"
    "os_Lstat (filepath_Join p [name]) fs = Inl err \<longrightarrow>
      walk_names k (copyDirectory_walkFn src dest) p (name # names) fs = Some (Some err, fs)"
    "os_Lstat (filepath_Join p [name]) fs = Inr info2 \<and>
     walk k (copyDirectory_walkFn src dest) (filepath_Join p [name]) info2 fs = Some (Some e1, fs2) \<longrightarrow>
      walk_names k (copyDirectory_walkFn src dest) p (name # names) fs = Some (Some e1, fs2)"
    by (simp_all add: cb_err Let_def)
  have c: "os_Lstat src fs = Inl err \<longrightarrow> copyDirectory k src dest fs = Some (Some err, fs)"
    "os_Lstat src fs = Inr info1 \<longrightarrow>
      copyDirectory k src dest fs = walk k (copyDirectory_walkFn src dest) src info1 fs"
    by (simp_all add: copyDirectory_def filepath_Walk_def cb_err)
  from cb w c walk_names_append[of k "copyDirectory_walkFn src dest" p ns1 ns2 fs]
  show ?thesis by (intro conjI) assumption+
qed

lemma conflict_ab:
  "map_option fst (walk_names 1 (copyDirectory_walkFn [''s''] [''d'']) [''s''] [''a'', ''b''] conflict_fs)
      = Some (Some EISDIR)"
  by code_simp

lemma conflict_copy:
  "copyDirectory 2 [''s''] [''d''] conflict_fs =
     Some (Some EISDIR, \<lparr>entries = [([], Dir 493), ([''s''], Dir 493), ([''s'', ''a''], File 420 ''hi''),
        ([''s'', ''b''], File 420 ''yo''), ([''s'', ''c''], File 420 ''x''),
        ([''d''], Dir 493), ([''d'', ''b''], Dir 493), ([''d'', ''a''], File 420 ''hi'')],
      umask = 18, fsize_limit = 8\<rparr>)"
  by code_simp

theorem first_error_stops_walk_witness:
  "filepath_Rel [''s''] [''s'', ''b''] = Inr [''b''] \<and>
   os_Open [''s'', ''b''] conflict_fs = Inr [''s'', ''b''] \<and>
   os_Create (filepath_Join [''d''] [''b'']) conflict_fs = Inl EISDIR \<and>
   copyDirectory_walkFn [''s''] [''d''] [''s'', ''b''] (Some (FileInfo False 420)) None conflict_fs
     = (Some EISDIR, conflict_fs) \<and>
   walk_names 1 (copyDirectory_walkFn [''s''] [''d'']) [''s''] ([''a'', ''b''] @ [''c'']) conflict_fs
     = walk_names 1 (copyDirectory_walkFn [''s''] [''d'']) [''s''] [''a'', ''b''] conflict_fs \<and>
   fst (the (copyDirectory 2 [''s''] [''d''] conflict_fs)) = Some EISDIR \<and>
   node_at (snd (the (copyDirectory 2 [''s''] [''d''] conflict_fs))) [''d'', ''a''] = Some (File 420 ''hi'') \<and>
   node_at (snd (the (copyDirectory 2 [''s''] [''d''] conflict_fs))) [''d'', ''c''] = None"
proof -
  have h: "filepath_Rel [''s''] [''s'', ''b''] = Inr [''b'']"
    "os_Open [''s'', ''b''] conflict_fs = Inr [''s'', ''b'']"
    "os_Create (filepath_Join [''d''] [''b'']) conflict_fs = Inl EISDIR"
    "\<not> IsDir (FileInfo False 420)"
    by code_simp+
  note t = first_error_stops_walk[where src = "[''s'']" and dest = "[''d'']" and p = "[''s'', ''b'']"
      and fs = conflict_fs and rel = "[''b'']" and i = "FileInfo False 420" and h = "[''s'', ''b'']"
      and x = EISDIR]
  from t h have 1: "copyDirectory_walkFn [''s''] [''d''] [''s'', ''b''] (Some (FileInfo False 420)) None conflict_fs
     = (Some EISDIR, conflict_fs)"
    by blast
  from conflict_ab obtain f1 where
    w: "walk_names 1 (copyDirectory_walkFn [''s''] [''d'']) [''s''] [''a'', ''b''] conflict_fs = Some (Some EISDIR, f1)"
    by auto
  have 2: "walk_names 1 (copyDirectory_walkFn [''s''] [''d'']) [''s''] ([''a'', ''b''] @ [''c'']) conflict_fs
     = walk_names 1 (copyDirectory_walkFn [''s''] [''d'']) [''s''] [''a'', ''b''] conflict_fs"
    using first_error_stops_walk[where src = "[''s'']" and dest = "[''d'']" and p = "[''s'']"
        and fs = conflict_fs and k = 1 and ?ns1.0 = "[''a'', ''b'']" and ?ns2.0 = "[''c'']"]
    by (simp only: w option.case prod.case)
  have 3: "fst (the (copyDirectory 2 [''s''] [''d''] conflict_fs)) = Some EISDIR"
    "node_at (snd (the (copyDirectory 2 [''s''] [''d''] conflict_fs))) [''d'', ''a''] = Some (File 420 ''hi'')"
    "node_at (snd (the (copyDirectory 2 [''s''] [''d''] conflict_fs))) [''d'', ''c''] = None"
    unfolding conflict_copy by code_simp+
  from h 1 2 3 show ?thesis by simp
qed

text \<open>
  Claim C8, as amended. For a directory entry of the source the callback is one call
  of \<^verbatim>\<open>os.MkdirAll\<close>: when it reports no error the corresponding path is a directory;
  a directory that is already there is no error and is left as it is, with its own
  permission bits; nothing that exists is changed; what is added lies on the way to
  that path and has the source entry's bits less the umask. The walk calls the
  callback on a directory before it visits any name in it, and visits none when the
  callback fails. After a copy of disjoint trees that reports no error, the
  directory at the corresponding path has the bits it had before when it was there,
  and the source entry's bits less the umask otherwise.
\<close>

theorem directory_made_before_children:
  assumes "node_at fs (src @ r) = Some (Dir m)"
    and "copyDirectory_walkFn src dest (src @ r) (Some (FileInfo True m)) None fs = (e, fs1)"
  shows "(e = None \<longrightarrow> is_dir fs1 (dest @ r)) \<and>
         (is_dir fs (dest @ r) \<longrightarrow> e = None \<and> fs1 = fs) \<and>
         (\<forall>q. node_at fs q \<noteq> None \<longrightarrow> node_at fs1 q = node_at fs q) \<and>
         (\<forall>q. node_at fs q = None \<and> node_at fs1 q \<noteq> None \<longrightarrow>
              prefix q (dest @ r) \<and> node_at fs1 q = Some (Dir (m AND NOT (umask fs)))) \<and>
         (readDirNames (src @ r) fs = Inr names \<longrightarrow>
            walk (Suc k) (copyDirectory_walkFn src dest) (src @ r) (FileInfo True m) fs =
              (case e of Some x \<Rightarrow> Some (Some x, fs1)
               | None \<Rightarrow> walk_names k (copyDirectory_walkFn src dest) (src @ r) names fs1)) \<and>
         (\<forall>j fs'. disjoint src dest \<and> tree_below fs src \<and> is_dir fs dest \<and>
              copyDirectory j src dest fs = Some (None, fs') \<longrightarrow>
              node_at fs' (dest @ r) =
                Some (Dir (case node_at fs (dest @ r) of Some (Dir mo) \<Rightarrow> mo
                           | _ \<Rightarrow> m AND NOT (umask fs))))"
proof -
  have mk: "os_MkdirAll (dest @ r) m fs = (e, fs1)"
    using assms(2) by (simp add: copyDirectory_walkFn_def Rel_prefix filepath_Join_def)
  from MkdirAll_rel[OF mk] have rel: "mk_rel (dest @ r) m fs e fs1" .
  have 1: "e = None \<longrightarrow> is_dir fs1 (dest @ r)"
    using rel by (simp add: mk_rel_def)
  have 2: "is_dir fs (dest @ r) \<longrightarrow> e = None \<and> fs1 = fs"
    using mk by (auto simp: is_dir_def MkdirAll_dir split: option.splits node.splits)
  have 3: "node_at fs1 q = node_at fs q" if "node_at fs q \<noteq> None" for q
    using rel that unfolding mk_rel_def by metis
  have 4: "prefix q (dest @ r) \<and> node_at fs1 q = Some (Dir (m AND NOT (umask fs)))"
    if "node_at fs q = None \<and> node_at fs1 q \<noteq> None" for q
    using rel that unfolding mk_rel_def by metis
  have 5: "walk (Suc k) (copyDirectory_walkFn src dest) (src @ r) (FileInfo True m) fs =
              (case e of Some x \<Rightarrow> Some (Some x, fs1)
               | None \<Rightarrow> walk_names k (copyDirectory_walkFn src dest) (src @ r) names fs1)"
    if "readDirNames (src @ r) fs = Inr names"
    using that assms(2) by (simp split: option.splits)
  have 6: "node_at fs' (dest @ r) =
                Some (Dir (case node_at fs (dest @ r) of Some (Dir mo) \<Rightarrow> mo
                           | _ \<Rightarrow> m AND NOT (umask fs)))"
    if "disjoint src dest \<and> tree_below fs src \<and> is_dir fs dest \<and>
        copyDirectory j src dest fs = Some (None, fs')" for j fs'
  proof -
    from that have "confined src dest (prefix dest) fs None fs'"
      by (auto intro: copy_confined)
    then have "node_at fs' (dest @ r) = overlay src dest fs (dest @ r)"
      by (simp add: confined_def)
    then show ?thesis using assms(1)
      by (simp add: overlay_at merge_def split: option.splits node.splits)
  qed
  from 1 2 3 4 5 6 show ?thesis by blast
qed

lemma mode_fs_ok: "disjoint [''s''] [''d''] \<and> tree_below mode_fs [''s''] \<and> is_dir mode_fs [''d'']"
  by code_simp

lemma mode_fs_copy:
  "copyDirectory 2 [''s''] [''d''] mode_fs =
     Some (None, \<lparr>entries = [([], Dir 493), ([''s''], Dir 448), ([''s'', ''a''], File 420 ''hi''),
       ([''s'', ''b''], Dir 448), ([''d''], Dir 493),
       ([''d'', ''a''], File 420 ''hi''), ([''d'', ''b''], Dir 448)],
      umask = 18, fsize_limit = 8\<rparr>)"
  by code_simp

theorem directory_made_before_children_witness:
  "node_at mode_fs ([''s''] @ [''b'']) = Some (Dir 448) \<and>
   fst (copyDirectory_walkFn [''s''] [''d''] ([''s''] @ [''b'']) (Some (FileInfo True 448)) None mode_fs) = None \<and>
   is_dir (snd (copyDirectory_walkFn [''s''] [''d''] ([''s''] @ [''b'']) (Some (FileInfo True 448)) None mode_fs))
     ([''d''] @ [''b'']) \<and>
   disjoint [''s''] [''d''] \<and> tree_below mode_fs [''s''] \<and> is_dir mode_fs [''d''] \<and>
   fst (the (copyDirectory 2 [''s''] [''d''] mode_fs)) = None \<and>
   node_at (snd (the (copyDirectory 2 [''s''] [''d''] mode_fs))) [''d'', ''b''] = Some (Dir 448)"
proof -
  let ?cb = "copyDirectory_walkFn [''s''] [''d''] ([''s''] @ [''b'']) (Some (FileInfo True 448)) None mode_fs"
  let ?fs' = "snd (the (copyDirectory 2 [''s''] [''d''] mode_fs))"
  have n: "node_at mode_fs ([''s''] @ [''b'']) = Some (Dir 448)" by code_simp
  have e: "fst ?cb = None" by code_simp
  have cb: "?cb = (None, snd ?cb)" using e by (cases ?cb) simp
  have c: "copyDirectory 2 [''s''] [''d''] mode_fs = Some (None, ?fs')"
    by (simp add: mode_fs_copy)
  have f: "fst (the (copyDirectory 2 [''s''] [''d''] mode_fs)) = None"
    by (simp add: mode_fs_copy)
  have o: "node_at mode_fs [''d'', ''b''] = None" "umask mode_fs = 18" by code_simp+
  note t = directory_made_before_children[OF n cb, of "[]" 0]
  from t have 1: "is_dir (snd ?cb) ([''d''] @ [''b''])" by blast
  from t mode_fs_ok c have "node_at ?fs' ([''d''] @ [''b'']) =
      Some (Dir (case node_at mode_fs ([''d''] @ [''b'']) of Some (Dir mo) \<Rightarrow> mo
                 | _ \<Rightarrow> 448 AND NOT (umask mode_fs)))"
    by blast
  then have 2: "node_at ?fs' [''d'', ''b''] = Some (Dir 448)"
    by (simp add: o)
  from n e 1 2 f mode_fs_ok show ?thesis by simp
qed

text \<open>
  The claim as stated has every directory made with the source entry's permission
  bits. The destination root was made by the orchestrator with \<^verbatim>\<open>0755\<close> and keeps
  these bits, though the source root has \<^verbatim>\<open>0700\<close>.
\<close>

theorem directory_mode_counterexample:
  "fst (the (copyDirectory 2 [''s''] [''d''] mode_fs)) = None \<and>
   node_at mode_fs [''s''] = Some (Dir 448) \<and>
   node_at (snd (the (copyDirectory 2 [''s''] [''d''] mode_fs))) [''d''] = Some (Dir 493)"
  by code_simp

section \<open>The completion barrier\<close>

lemma filter_update_returned:
  "i < length gs \<Longrightarrow> \<not> returned (gs ! i) \<Longrightarrow> returned g \<Longrightarrow>
   Suc (length (filter (\<lambda>g. \<not> returned g) (gs[i := g]))) = length (filter (\<lambda>g. \<not> returned g) gs)"
proof (induction gs arbitrary: i)
  case Nil
  then show ?case by simp
next
  case (Cons a gs)
  then show ?case by (cases i) auto
qed

lemma filter_update_same:
  "i < length gs \<Longrightarrow> \<not> returned (gs ! i) \<Longrightarrow> \<not> returned g \<Longrightarrow>
   length (filter (\<lambda>g. \<not> returned g) (gs[i := g])) = length (filter (\<lambda>g. \<not> returned g) gs)"
proof (induction gs arbitrary: i)
  case Nil
  then show ?case by simp
next
  case (Cons a gs)
  then show ?case by (cases i) auto
qed

lemma outstanding_pos:
  "i < length (goroutines s) \<Longrightarrow> \<not> returned (goroutines s ! i) \<Longrightarrow> 0 < outstanding s"
  unfolding outstanding_def
  by (metis filter_empty_conv length_greater_0_conv nth_mem)

lemma main_setup_Inv: "Inv s \<Longrightarrow> pc s = Start \<Longrightarrow> Inv (main_setup inp s)"
  by (auto simp: Inv_def main_setup_def outstanding_def Let_def split: prod.splits option.splits)

lemma main_iteration_Inv: "Inv s \<Longrightarrow> pc s = Loop (env # envs) \<Longrightarrow> Inv (main_iteration inp env envs s)"
  by (auto simp: Inv_def main_iteration_def outstanding_def split: prod.splits option.splits)

lemma step_main_Inv: "Inv s \<Longrightarrow> step_main inp s = Some s' \<Longrightarrow> Inv s'"
  apply (cases "pc s")
  subgoal by (auto simp: step_main_def main_setup_Inv)
  subgoal for envs
    apply (cases envs)
     apply (auto simp: step_main_def main_iteration_Inv)
    apply (auto simp: Inv_def outstanding_def)
    done
  subgoal by (auto simp: step_main_def Inv_def outstanding_def split: if_splits)
  subgoal by (auto simp: step_main_def)
  subgoal by (auto simp: step_main_def)
  done

text \<open>The statements of a goroutine, one step each.\<close>

lemma step_go_Pending:
  assumes "i < length (goroutines s)" "goroutines s ! i = Pending src dest"
    and "pc s \<noteq> Exit" "pc s \<noteq> Panicked" "pc s \<noteq> Start"
  shows "step_go k i s =
           (case copyDirectory k src dest (disk s) of
              None \<Rightarrow> None
            | Some (err, f1) \<Rightarrow>
                Some (s\<lparr>disk := f1, goroutines := (goroutines s)[i := Walked src dest err]\<rparr>))"
  using assms by (simp add: step_go_def copyDirectory_go_def split: option.splits prod.splits)

lemma step_go_Walked:
  assumes "i < length (goroutines s)" "goroutines s ! i = Walked src dest err"
    and "pc s \<noteq> Exit" "pc s \<noteq> Panicked" "pc s \<noteq> Start"
  shows "step_go k i s =
           Some (s\<lparr>out := out s @ (case err of Some e \<Rightarrow> [ErrorCopying src dest e] | None \<Rightarrow> []),
                   goroutines := (goroutines s)[i := Reported src dest err]\<rparr>)"
  using assms by (simp add: step_go_def copyDirectory_go_def split: option.splits)

lemma step_go_Reported:
  assumes "i < length (goroutines s)" "goroutines s ! i = Reported src dest err"
    and "pc s \<noteq> Exit" "pc s \<noteq> Panicked" "pc s \<noteq> Start"
  shows "step_go k i s =
           Some ((wg_Done s)\<lparr>goroutines := (goroutines s)[i := Returned src dest err]\<rparr>)"
  using assms by (simp add: step_go_def copyDirectory_go_def wg_Done_def)

lemma step_go_Returned:
  assumes "i < length (goroutines s) \<longrightarrow> returned (goroutines s ! i)"
  shows "step_go k i s = None"
  using assms
  by (cases "goroutines s ! i") (auto simp: step_go_def copyDirectory_go_def)

lemma step_go_Inv: assumes I: "Inv s" and st: "step_go k i s = Some s'" shows "Inv s'"
proof -
  from st have alive: "pc s \<noteq> Exit" "pc s \<noteq> Panicked" "pc s \<noteq> Start" and i: "i < length (goroutines s)"
    by (auto simp: step_go_def split: if_splits)
  show ?thesis
  proof (cases "goroutines s ! i")
    case (Pending src dest)
    from st step_go_Pending[OF i Pending alive, of k] obtain err f1 where
      s': "s' = s\<lparr>disk := f1, goroutines := (goroutines s)[i := Walked src dest err]\<rparr>"
      by (auto split: option.splits)
    have "outstanding s' = outstanding s"
      unfolding outstanding_def s' using filter_update_same[OF i, of "Walked src dest err"] Pending by simp
    with I alive show ?thesis by (auto simp: Inv_def s')
  next
    case (Walked src dest err)
    from st step_go_Walked[OF i Walked alive, of k] have
      s': "s' = s\<lparr>out := out s @ (case err of Some e \<Rightarrow> [ErrorCopying src dest e] | None \<Rightarrow> []),
                   goroutines := (goroutines s)[i := Reported src dest err]\<rparr>"
      by simp
    have "outstanding s' = outstanding s"
      unfolding outstanding_def s' using filter_update_same[OF i, of "Reported src dest err"] Walked by simp
    with I alive show ?thesis by (auto simp: Inv_def s')
  next
    case (Reported src dest err)
    from st step_go_Reported[OF i Reported alive, of k] have
      s': "s' = (wg_Done s)\<lparr>goroutines := (goroutines s)[i := Returned src dest err]\<rparr>"
      by simp
    have pos: "0 < outstanding s" using outstanding_pos[OF i] Reported by simp
    with I have w: "0 < wg s" by (simp add: Inv_def)
    with s' have f: "goroutines s' = (goroutines s)[i := Returned src dest err]" "wg s' = wg s - 1"
      "pc s' = pc s"
      by (auto simp: wg_Done_def)
    have o: "Suc (outstanding s') = outstanding s"
      unfolding outstanding_def f using filter_update_returned[OF i, of "Returned src dest err"] Reported
      by simp
    with I alive f show ?thesis by (auto simp: Inv_def)
  next
    case (Returned src dest err)
    with st step_go_Returned[of i s k] show ?thesis by simp
  qed
qed

lemma step_Inv: "Inv s \<Longrightarrow> step k inp a s = Some s' \<Longrightarrow> Inv s'"
  by (cases a) (auto intro: step_main_Inv step_go_Inv)

lemma run_Inv: "Inv s \<Longrightarrow> run k inp sched s = Some s' \<Longrightarrow> Inv s'"
  by (induction sched arbitrary: s) (auto split: option.splits dest: step_Inv)

lemma Inv_init: "Inv (init f)"
  by (simp add: Inv_def init_def outstanding_def)

lemma outstanding_0: "outstanding s = 0 \<longleftrightarrow> (\<forall>g \<in> set (goroutines s). returned g)"
  by (auto simp: outstanding_def filter_empty_conv)

lemma Inv_alive:
  assumes "Inv s" "i < length (goroutines s)" "\<not> returned (goroutines s ! i)"
  shows "pc s \<noteq> Exit \<and> pc s \<noteq> Panicked \<and> pc s \<noteq> Start \<and> 0 < wg s"
  using assms outstanding_pos[OF assms(2,3)] by (auto simp: Inv_def)

text \<open>
  Claim C3. In every state the process can reach, under any schedule, the counter of
  the wait group is the number of goroutines that were started and have not
  returned, and the process has not panicked. The main goroutine cannot move at
  \<^verbatim>\<open>wg.Wait()\<close> while a goroutine has not returned; when it moves there, and when it
  has returned itself, every goroutine has returned, so its walk is over. A
  goroutine that has not returned can always move, except that its first step
  needs its walk to come back. Whatever error the walk came back with, none or
  some, the goroutine moves on to the \<^verbatim>\<open>if\<close>, from there to the deferred call, and
  from there it returns; the first two steps leave the counter as it is, the third
  takes it down by one, and a goroutine that has returned moves no more.
\<close>

theorem barrier_count:
  assumes "run k inp sched (init f) = Some s"
  shows "wg s = int (outstanding s) \<and> pc s \<noteq> Panicked \<and>
         (pc s = Exit \<longrightarrow> (\<forall>g \<in> set (goroutines s). returned g)) \<and>
         (pc s = Wait \<and> (\<exists>g \<in> set (goroutines s). \<not> returned g) \<longrightarrow> step k inp Main s = None) \<and>
         (pc s = Wait \<and> step k inp Main s \<noteq> None \<longrightarrow> (\<forall>g \<in> set (goroutines s). returned g)) \<and>
         (\<forall>i src dest err f1. i < length (goroutines s) \<and> goroutines s ! i = Pending src dest \<and>
              copyDirectory k src dest (disk s) = Some (err, f1) \<longrightarrow>
              step k inp (Go i) s =
                Some (s\<lparr>disk := f1, goroutines := (goroutines s)[i := Walked src dest err]\<rparr>)) \<and>
         (\<forall>i src dest err. i < length (goroutines s) \<and> goroutines s ! i = Walked src dest err \<longrightarrow>
              step k inp (Go i) s =
                Some (s\<lparr>out := out s @ (case err of Some e \<Rightarrow> [ErrorCopying src dest e] | None \<Rightarrow> []),
                        goroutines := (goroutines s)[i := Reported src dest err]\<rparr>)) \<and>
         (\<forall>i src dest err. i < length (goroutines s) \<and> goroutines s ! i = Reported src dest err \<longrightarrow>
              step k inp (Go i) s =
                Some (s\<lparr>wg := wg s - 1, goroutines := (goroutines s)[i := Returned src dest err]\<rparr>)) \<and>
         (\<forall>i src dest err. i < length (goroutines s) \<and> goroutines s ! i = Returned src dest err \<longrightarrow>
              step k inp (Go i) s = None)"
proof -
  have I: "Inv s" using run_Inv[OF Inv_init assms] .
  have 1: "wg s = int (outstanding s)" "pc s \<noteq> Panicked"
    "pc s = Exit \<longrightarrow> (\<forall>g \<in> set (goroutines s). returned g)"
    using I by (auto simp: Inv_def outstanding_0)
  have 2: "pc s = Wait \<and> (\<exists>g \<in> set (goroutines s). \<not> returned g) \<longrightarrow> step k inp Main s = None"
    using I outstanding_0[of s] by (auto simp: step_main_def Inv_def)
  have 3: "pc s = Wait \<and> step k inp Main s \<noteq> None \<longrightarrow> (\<forall>g \<in> set (goroutines s). returned g)"
    using 2 by auto
  have 4: "step k inp (Go i) s =
                Some (s\<lparr>disk := f1, goroutines := (goroutines s)[i := Walked src dest err]\<rparr>)"
    if "i < length (goroutines s) \<and> goroutines s ! i = Pending src dest \<and>
        copyDirectory k src dest (disk s) = Some (err, f1)" for i src dest err f1
  proof -
    from that Inv_alive[OF I, of i] have "pc s \<noteq> Exit" "pc s \<noteq> Panicked" "pc s \<noteq> Start" by auto
    from step_go_Pending[OF _ _ this, of i src dest k] that show ?thesis by simp
  qed
  have 5: "step k inp (Go i) s =
                Some (s\<lparr>out := out s @ (case err of Some e \<Rightarrow> [ErrorCopying src dest e] | None \<Rightarrow> []),
                        goroutines := (goroutines s)[i := Reported src dest err]\<rparr>)"
    if "i < length (goroutines s) \<and> goroutines s ! i = Walked src dest err" for i src dest err
  proof -
    from that Inv_alive[OF I, of i] have "pc s \<noteq> Exit" "pc s \<noteq> Panicked" "pc s \<noteq> Start" by auto
    from step_go_Walked[OF _ _ this, of i src dest err k] that show ?thesis by simp
  qed
  have 6: "step k inp (Go i) s =
                Some (s\<lparr>wg := wg s - 1, goroutines := (goroutines s)[i := Returned src dest err]\<rparr>)"
    if "i < length (goroutines s) \<and> goroutines s ! i = Reported src dest err" for i src dest err
  proof -
    from that Inv_alive[OF I, of i] have a: "pc s \<noteq> Exit" "pc s \<noteq> Panicked" "pc s \<noteq> Start" and w: "0 < wg s"
      by auto
    from step_go_Reported[OF _ _ a, of i src dest err k] that w show ?thesis
      by (simp add: wg_Done_def)
  qed
  have 7: "step k inp (Go i) s = None"
    if "i < length (goroutines s) \<and> goroutines s ! i = Returned src dest err" for i src dest err
    using that step_go_Returned[of i s k] by simp
  from 1 2 3 4 5 6 7 show ?thesis by blast
qed

lemma run_snoc:
  "run k inp (sched @ [a]) s0 = (case run k inp sched s0 of None \<Rightarrow> None | Some s \<Rightarrow> step k inp a s)"
  by (induction sched arbitrary: s0) (auto split: option.splits)

lemma ex_dispatch_fail:
  "map_option (\<lambda>s. (pc s, wg s, length (goroutines s), goroutines s ! 0,
       map_option fst (copyDirectory 3 [''s''] (envDirPath_of ex_inp ''SANDBOX_'') (disk s))))
     (run 3 ex_inp ex_dispatch (init ex_fs_conflict))
   = Some (Wait, 5, 5, Pending [''s''] (envDirPath_of ex_inp ''SANDBOX_''), Some (Some EISDIR))"
  by code_simp

theorem barrier_count_witness:
  "\<exists>s s1 s2 s3. run 3 ex_inp ex_dispatch (init ex_fs_conflict) = Some s \<and>
      pc s = Wait \<and> wg s = 5 \<and> step 3 ex_inp Main s = None \<and>
      goroutines s ! 0 = Pending [''s''] (envDirPath_of ex_inp ''SANDBOX_'') \<and>
      fst (the (copyDirectory 3 [''s''] (envDirPath_of ex_inp ''SANDBOX_'') (disk s))) = Some EISDIR \<and>
      step 3 ex_inp (Go 0) s = Some s1 \<and> wg s1 = 5 \<and>
      step 3 ex_inp (Go 0) s1 = Some s2 \<and> wg s2 = 5 \<and>
      step 3 ex_inp (Go 0) s2 = Some s3 \<and> wg s3 = 4 \<and>
      goroutines s3 ! 0 = Returned [''s''] (envDirPath_of ex_inp ''SANDBOX_'') (Some EISDIR) \<and>
      step 3 ex_inp (Go 0) s3 = None"
proof -
  let ?D = "envDirPath_of ex_inp ''SANDBOX_''"
  from ex_dispatch_fail obtain s where
    r: "run 3 ex_inp ex_dispatch (init ex_fs_conflict) = Some s"
    and s: "pc s = Wait" "wg s = 5" "length (goroutines s) = 5" "goroutines s ! 0 = Pending [''s''] ?D"
    and c: "map_option fst (copyDirectory 3 [''s''] ?D (disk s)) = Some (Some EISDIR)"
    by auto
  from c obtain f1 where c1: "copyDirectory 3 [''s''] ?D (disk s) = Some (Some EISDIR, f1)"
    by auto
  note t = barrier_count[OF r]
  have i: "0 < length (goroutines s)" using s by simp
  have nr: "\<exists>g \<in> set (goroutines s). \<not> returned g"
    using i s(4) by (metis nth_mem returned.simps(2))
  from t s(1) nr have blocked: "step 3 ex_inp Main s = None" by blast
  define s1 where "s1 = s\<lparr>disk := f1, goroutines := (goroutines s)[0 := Walked [''s''] ?D (Some EISDIR)]\<rparr>"
  from t i s(4) c1 have st1: "step 3 ex_inp (Go 0) s = Some s1"
    unfolding s1_def by blast
  have r1: "run 3 ex_inp (ex_dispatch @ [Go 0]) (init ex_fs_conflict) = Some s1"
    using run_snoc[of 3 ex_inp ex_dispatch "Go 0" "init ex_fs_conflict"] r st1 by simp
  have g1: "0 < length (goroutines s1)" "goroutines s1 ! 0 = Walked [''s''] ?D (Some EISDIR)" "wg s1 = 5"
    using i s by (simp_all add: s1_def)
  define s2 where "s2 = s1\<lparr>out := out s1 @ [ErrorCopying [''s''] ?D EISDIR],
      goroutines := (goroutines s1)[0 := Reported [''s''] ?D (Some EISDIR)]\<rparr>"
  from barrier_count[OF r1] g1 have st2: "step 3 ex_inp (Go 0) s1 = Some s2"
    unfolding s2_def by fastforce
  have r2: "run 3 ex_inp ((ex_dispatch @ [Go 0]) @ [Go 0]) (init ex_fs_conflict) = Some s2"
    using run_snoc[of 3 ex_inp "ex_dispatch @ [Go 0]" "Go 0" "init ex_fs_conflict"] r1 st2 by simp
  have g2: "0 < length (goroutines s2)" "goroutines s2 ! 0 = Reported [''s''] ?D (Some EISDIR)" "wg s2 = 5"
    using g1 by (simp_all add: s2_def)
  define s3 where "s3 = s2\<lparr>wg := wg s2 - 1,
      goroutines := (goroutines s2)[0 := Returned [''s''] ?D (Some EISDIR)]\<rparr>"
  from barrier_count[OF r2] g2 have st3: "step 3 ex_inp (Go 0) s2 = Some s3"
    unfolding s3_def by blast
  have r3: "run 3 ex_inp (((ex_dispatch @ [Go 0]) @ [Go 0]) @ [Go 0]) (init ex_fs_conflict) = Some s3"
    using run_snoc[of 3 ex_inp "(ex_dispatch @ [Go 0]) @ [Go 0]" "Go 0" "init ex_fs_conflict"] r2 st3 by simp
  have g3: "0 < length (goroutines s3)" "goroutines s3 ! 0 = Returned [''s''] ?D (Some EISDIR)" "wg s3 = 4"
    using g2 by (simp_all add: s3_def)
  from barrier_count[OF r3] g3 have st4: "step 3 ex_inp (Go 0) s3 = None" by blast
  have e: "fst (the (copyDirectory 3 [''s''] ?D (disk s))) = Some EISDIR" using c1 by simp
  from r s blocked e st1 g1 st2 g2 st3 g3 st4 show ?thesis by blast
qed

section \<open>The completion message and skipped environments\<close>


lemma step_main_Announced: "Announced s \<Longrightarrow> step_main inp s = Some s' \<Longrightarrow> Announced s'"
  apply (cases "pc s")
  subgoal by (auto simp: step_main_def Announced_def main_setup_def Let_def split: prod.splits option.splits if_splits)
  subgoal for envs
    by (cases envs) (auto simp: step_main_def Announced_def main_iteration_def split: prod.splits option.splits)
  subgoal by (auto simp: step_main_def Announced_def split: if_splits)
  subgoal by (auto simp: step_main_def)
  subgoal by (auto simp: step_main_def)
  done

lemma step_go_Announced: "Announced s \<Longrightarrow> step_go k i s = Some s' \<Longrightarrow> Announced s'"
  by (auto simp: step_go_def copyDirectory_go_def wg_Done_def Announced_def
      split: if_splits goroutine.splits option.splits prod.splits)

lemma run_Announced: "Announced s \<Longrightarrow> run k inp sched s = Some s' \<Longrightarrow> Announced s'"
proof (induction sched arbitrary: s)
  case Nil
  then show ?case by simp
next
  case (Cons a sched)
  then show ?case
    by (cases a) (auto split: option.splits dest: step_main_Announced step_go_Announced)
qed

lemma step_main_no_copy_error:
  "step_main inp s = Some s' \<Longrightarrow> filter is_copy_error (out s') = filter is_copy_error (out s)"
  apply (cases "pc s")
  subgoal by (auto simp: step_main_def main_setup_def Let_def split: prod.splits option.splits if_splits)
  subgoal for envs
    by (cases envs) (auto simp: step_main_def main_iteration_def split: prod.splits option.splits)
  subgoal by (auto simp: step_main_def split: if_splits)
  subgoal by (auto simp: step_main_def)
  subgoal by (auto simp: step_main_def)
  done

lemma ex_run_all_fail:
  "map_option (\<lambda>s. (pc s, length (filter is_copy_error (out s)), last (out s)))
     (run 3 ex_inp ex_sched (init ex_fs_small)) = Some (Exit, 5, Completed)"
  by code_simp

text \<open>
  Claim C9. Once the counter is zero at \<^verbatim>\<open>wg.Wait()\<close>, the main goroutine prints the
  completion message and returns, whatever the goroutines printed before: a run
  that got as far as the loop and has ended has the completion message as its last
  line. The error of a copy is printed by its goroutine only; no step of the main
  goroutine adds or removes such a line, and none reads one.
\<close>

theorem completion_message_unconditional:
  assumes "run k inp sched (init f) = Some s"
  shows "(pc s = Wait \<and> wg s = 0 \<longrightarrow>
            step k inp Main s = Some (s\<lparr>out := out s @ [Completed], pc := Exit\<rparr>)) \<and>
         (pc s = Exit \<and> HangTight \<in> set (out s) \<longrightarrow> last (out s) = Completed) \<and>
         (\<forall>s'. step k inp Main s = Some s' \<longrightarrow>
            filter is_copy_error (out s') = filter is_copy_error (out s))"
proof -
  have "Announced (init f)" by (simp add: Announced_def init_def)
  from run_Announced[OF this assms] have A: "Announced s" .
  have 1: "pc s = Wait \<and> wg s = 0 \<longrightarrow>
            step k inp Main s = Some (s\<lparr>out := out s @ [Completed], pc := Exit\<rparr>)"
    by (simp add: step_main_def)
  have 2: "pc s = Exit \<and> HangTight \<in> set (out s) \<longrightarrow> last (out s) = Completed"
    using A by (simp add: Announced_def)
  have 3: "filter is_copy_error (out s') = filter is_copy_error (out s)"
    if "step k inp Main s = Some s'" for s'
    using that step_main_no_copy_error[of inp s s'] by simp
  from 1 2 3 show ?thesis by blast
qed

theorem completion_message_unconditional_witness:
  "\<exists>s. run 3 ex_inp ex_sched (init ex_fs_small) = Some s \<and> pc s = Exit \<and>
       HangTight \<in> set (out s) \<and> length (filter is_copy_error (out s)) = 5 \<and>
       last (out s) = Completed"
proof -
  from ex_run_all_fail obtain s where
    s: "run 3 ex_inp ex_sched (init ex_fs_small) = Some s" "pc s = Exit"
       "length (filter is_copy_error (out s)) = 5"
    by auto
  have h: "map_option (\<lambda>s. HangTight \<in> set (out s)) (run 3 ex_inp ex_sched (init ex_fs_small)) = Some True"
    by code_simp
  with s have "HangTight \<in> set (out s)" by simp
  with completion_message_unconditional[OF s(1)] s show ?thesis by auto
qed

lemma ex_run_blocked:
  "map_option (\<lambda>s. (pc s, fst (os_MkdirAll (envDirPath_of ex_inp ''DEV_'') 493 (disk s)), wg s, length (goroutines s)))
     (run 3 ex_inp [Main, Main] (init ex_fs_blocked)) = Some (Loop [''DEV_'', ''STAGE_'', ''PREPROD_'', ''PROD_''], Some ENOTDIR, 1, 1)"
  by code_simp

text \<open>
  Claim C10. When the directory of an environment cannot be made, the iteration of
  the loop prints the failure and goes on with the remaining environments: no
  goroutine is started, the counter of the wait group is not touched, and the next
  iteration can run. The sequential variant skips the copy of that environment in
  the same way.
\<close>

theorem skip_unmakeable_environment:
  assumes "pc s = Loop (env # envs)"
    and "os_MkdirAll (envDirPath_of inp env) 493 (disk s) = (Some e, f1)"
  shows "step k inp Main s =
           Some (s\<lparr>disk := f1, out := out s @ [FailedEnvDir (envDirName_of inp env) e], pc := Loop envs\<rparr>) \<and>
         (\<forall>s'. step k inp Main s = Some s' \<longrightarrow>
            goroutines s' = goroutines s \<and> wg s' = wg s \<and> outstanding s' = outstanding s \<and>
            pc s' = Loop envs \<and> step k inp Main s' \<noteq> None) \<and>
         main_seq_loop k inp (env # envs) (disk s, ms) =
           main_seq_loop k inp envs (f1, ms @ [FailedEnvDir (envDirName_of inp env) e])"
  using assms
  by (cases envs) (auto simp: step_main_def main_iteration_def outstanding_def)



theorem skip_unmakeable_environment_witness:
  "\<exists>s s'. run 3 ex_inp [Main, Main] (init ex_fs_blocked) = Some s \<and>
      pc s = Loop [''DEV_'', ''STAGE_'', ''PREPROD_'', ''PROD_''] \<and>
      fst (os_MkdirAll (envDirPath_of ex_inp ''DEV_'') 493 (disk s)) = Some ENOTDIR \<and>
      step 3 ex_inp Main s = Some s' \<and> wg s' = 1 \<and> length (goroutines s') = 1 \<and>
      pc s' = Loop [''STAGE_'', ''PREPROD_'', ''PROD_'']"
proof -
  from ex_run_blocked obtain s where
    s: "run 3 ex_inp [Main, Main] (init ex_fs_blocked) = Some s"
       "pc s = Loop [''DEV_'', ''STAGE_'', ''PREPROD_'', ''PROD_'']"
       "fst (os_MkdirAll (envDirPath_of ex_inp ''DEV_'') 493 (disk s)) = Some ENOTDIR"
       "wg s = 1" "length (goroutines s) = 1"
    by auto
  obtain f1 where f1: "os_MkdirAll (envDirPath_of ex_inp ''DEV_'') 493 (disk s) = (Some ENOTDIR, f1)"
    using s(3) by (cases "os_MkdirAll (envDirPath_of ex_inp ''DEV_'') 493 (disk s)") auto
  from skip_unmakeable_environment[OF s(2) f1, of 3 "[]"] s show ?thesis
    by auto
qed

section \<open>Dispatch\<close>














section \<open>One outcome for each environment\<close>

















end
